theory Spec2Isabelle
  imports Main
begin

section \<open>The PQ-tree of the Booth-Lueker embedder (EmbedPQTree.cpp)\<close>

text \<open>
  The tree lives in a store of nodes addressed by natural numbers; a pointer is an
  optional address and \<open>None\<close> is \<open>nullptr\<close>. Every dereference of the source is a lookup
  in the store, and a function of the model returns \<open>None\<close> where the source would
  dereference \<open>nullptr\<close> or a pointer to no node, or where one of its loops never ends.
\<close>

subsection \<open>Data model\<close>

type_synonym edge = nat
type_synonym node = nat
type_synonym ptr = "nat option"

text \<open>
  Modelled from the spec: the enumerations \<open>PQNodeRoot::PQNodeType\<close> and
  \<open>PQNodeRoot::PQNodeStatus\<close> are declared outside the sources at hand. The type tags
  are the three that EmbedPQTree.cpp tests; the status tags are those of the data model
  (Empty, Full, Partial, Indicator, ToBeDeleted, Eliminated).
\<close>

datatype PQNodeType = PNode | QNode | Leaf

datatype PQNodeStatus = Empty | Partial | Full | ToBeDeleted | Indicator | Eliminated

text \<open>\<open>IndInfo\<close> (IndInfo.h): the vertex \<open>v\<close> an indicator belongs to and its flag.\<close>

record IndInfo =
  associatedNode :: node
  changeDir :: bool

text \<open>The constructor \<open>IndInfo(node w)\<close>.\<close>

definition newIndInfo :: "node \<Rightarrow> IndInfo" where
  "newIndInfo w = \<lparr>associatedNode = w, changeDir = False\<rparr>"

text \<open>
  Modelled from the spec: the class \<open>PQNode\<close> is declared outside the sources at hand.
  The record holds the fields that EmbedPQTree.cpp reads and writes through the accessors
  of the class: type and status tags, the parent link, the two sibling pointers, the
  endmost children of a Q-node, the reference child of a P-node, the cached child count,
  the list of full children, the key of a leaf (\<open>getKey\<close>, the edge of its leaf key,
  \<open>None\<close> when the node has no leaf key) and the information of an indicator
  (\<open>getNodeInfo\<close>, \<open>None\<close> when the node has none).
\<close>

record PQNode =
  nodeType :: PQNodeType
  status :: PQNodeStatus
  m_parent :: ptr
  m_sibLeft :: ptr
  m_sibRight :: ptr
  m_leftEndmost :: ptr
  m_rightEndmost :: ptr
  m_referenceChild :: ptr
  m_childCount :: int
  fullChildren :: "nat list"
  getKey :: "edge option"
  getNodeInfo :: "IndInfo option"

text \<open>
  The tree object: the store and the members \<open>m_pertinentNodes\<close>, \<open>m_pertinentRoot\<close>,
  \<open>m_root\<close> and \<open>m_identificationNumber\<close>. A node made by \<open>new\<close> is stored at the
  address \<open>m_identificationNumber\<close>, which the source increments at every creation.
\<close>

record EmbedPQTree =
  heap :: "nat \<Rightarrow> PQNode option"
  m_pertinentNodes :: "nat list"
  m_pertinentRoot :: ptr
  m_root :: ptr
  m_identificationNumber :: nat

text \<open>
  An entry of a frontier list is a pointer to a key object: the leaf key of a leaf
  (\<open>checkNode->getKey()\<close>, here the key the node holds) or the node key of an indicator
  (\<open>getNodeInfo()\<close>, here the address of the indicator, whose information stays in the
  store and is read when the entry is consumed).
\<close>

datatype BasicKey = LeafKey "edge option" | NodeKey nat

datatype SibDirection = NoDir | Left | Right

subsection \<open>Accessors of a node\<close>

text \<open>
  Modelled from the spec: \<open>PQNode::getNextSib\<close>, \<open>getSib\<close> and \<open>getEndmost\<close> are
  declared outside the sources at hand. A child carries explicit left and right sibling
  pointers with no canonical orientation; \<open>getNextSib other\<close> is the sibling that is not
  \<open>other\<close>, the left one first.
\<close>

definition getNextSib :: "PQNode \<Rightarrow> ptr \<Rightarrow> ptr" where
  "getNextSib nd other =
     (if m_sibLeft nd \<noteq> other then m_sibLeft nd
      else if m_sibRight nd \<noteq> other then m_sibRight nd
      else None)"

definition getSib :: "PQNode \<Rightarrow> SibDirection \<Rightarrow> ptr" where
  "getSib nd side =
     (case side of Left \<Rightarrow> m_sibLeft nd | Right \<Rightarrow> m_sibRight nd | NoDir \<Rightarrow> None)"

definition getEndmost :: "PQNode \<Rightarrow> SibDirection \<Rightarrow> ptr" where
  "getEndmost nd side =
     (case side of Right \<Rightarrow> m_rightEndmost nd | _ \<Rightarrow> m_leftEndmost nd)"

text \<open>
  Modelled from the spec: \<open>PQTree::destroyNode\<close> is outside the sources at hand; it
  marks the node \<open>ToBeDeleted\<close> (the comment of \<open>emptyAllPertinentNodes\<close> says so).
\<close>

definition destroyNode :: "nat \<Rightarrow> EmbedPQTree \<Rightarrow> EmbedPQTree option" where
  "destroyNode n t =
     (case heap t n of
        None \<Rightarrow> None
      | Some nd \<Rightarrow> Some (t\<lparr>heap := (heap t)(n \<mapsto> nd\<lparr>status := ToBeDeleted\<rparr>)\<rparr>))"

text \<open>\<open>m_pertinentNodes->pushBack(n)\<close>.\<close>

definition pushPertinent :: "nat \<Rightarrow> EmbedPQTree \<Rightarrow> EmbedPQTree" where
  "pushPertinent n t = t\<lparr>m_pertinentNodes := m_pertinentNodes t @ [n]\<rparr>"

text \<open>\<open>n->getNodeInfo()->userStructInfo()->changeDir = true\<close>.\<close>

definition setChangeDir :: "nat \<Rightarrow> EmbedPQTree \<Rightarrow> EmbedPQTree option" where
  "setChangeDir n t =
     (case heap t n of
        None \<Rightarrow> None
      | Some nd \<Rightarrow>
          (case getNodeInfo nd of
             None \<Rightarrow> None
           | Some info \<Rightarrow>
               Some (t\<lparr>heap := (heap t)(n \<mapsto> nd\<lparr>getNodeInfo := Some (info\<lparr>changeDir := True\<rparr>)\<rparr>)\<rparr>)))"

subsection \<open>Sibling traversal that ignores indicators\<close>

text \<open>
  Modelled from the spec: the virtual functions of the base class \<open>PQTree\<close> that
  EmbedPQTree overrides are outside the sources at hand; they read the plain pointers.
\<close>

definition PQTree_clientSibLeft :: "EmbedPQTree \<Rightarrow> nat \<Rightarrow> ptr option" where
  "PQTree_clientSibLeft t nodePtr = map_option m_sibLeft (heap t nodePtr)"

definition PQTree_clientSibRight :: "EmbedPQTree \<Rightarrow> nat \<Rightarrow> ptr option" where
  "PQTree_clientSibRight t nodePtr = map_option m_sibRight (heap t nodePtr)"



definition PQTree_clientNextSib :: "EmbedPQTree \<Rightarrow> nat \<Rightarrow> ptr \<Rightarrow> ptr option" where
  "PQTree_clientNextSib t nodePtr other = map_option (\<lambda>nd. getNextSib nd other) (heap t nodePtr)"

text \<open>
  The loop shared by \<open>clientSibLeft\<close> and \<open>clientSibRight\<close>:
  \<^verbatim>\<open>while (nodePtr && nodePtr->status() == Indicator) {
    holdSib = predNode; predNode = nodePtr; nodePtr = predNode->getNextSib(holdSib); }\<close>
\<close>

partial_function (option) skipIndicators :: "EmbedPQTree \<Rightarrow> nat \<Rightarrow> ptr \<Rightarrow> ptr option" where
  "skipIndicators t predNode nodePtr =
     (case nodePtr of
        None \<Rightarrow> Some None
      | Some n \<Rightarrow>
          (case heap t n of
             None \<Rightarrow> None
           | Some nd \<Rightarrow>
               if status nd = Indicator
               then skipIndicators t n (getNextSib nd (Some predNode))
               else Some (Some n)))"

definition clientSibLeft :: "EmbedPQTree \<Rightarrow> nat \<Rightarrow> ptr option" where
  "clientSibLeft t nodePtr =
     (case PQTree_clientSibLeft t nodePtr of
        None \<Rightarrow> None
      | Some p \<Rightarrow> skipIndicators t nodePtr p)"

definition clientSibRight :: "EmbedPQTree \<Rightarrow> nat \<Rightarrow> ptr option" where
  "clientSibRight t nodePtr =
     (case PQTree_clientSibRight t nodePtr of
        None \<Rightarrow> None
      | Some p \<Rightarrow> skipIndicators t nodePtr p)"

definition clientNextSib :: "EmbedPQTree \<Rightarrow> nat \<Rightarrow> ptr \<Rightarrow> ptr option" where
  "clientNextSib t nodePtr other =
     (case clientSibLeft t nodePtr of
        None \<Rightarrow> None
      | Some left \<Rightarrow>
          if left \<noteq> other then Some left
          else (case clientSibRight t nodePtr of
                  None \<Rightarrow> None
                | Some right \<Rightarrow> if right \<noteq> other then Some right else Some None))"




subsection \<open>Scanning the frontier: \<open>front\<close> and \<open>getFront\<close>\<close>

text \<open>
  The inner loop of \<open>front\<close>, over the siblings of \<open>firstSon\<close>:
  \<^verbatim>\<open>while (nextSon && nextSon != firstSon) { ... }\<close>
  The stack \<open>S\<close> is a list whose head is the top; \<open>keys.pushBack\<close> appends. The sibling
  pointers of \<open>nextSon\<close> are not written by the body, so \<open>getNextSib\<close> reads the node
  as it was found.
\<close>

partial_function (option) front_siblings ::
  "EmbedPQTree \<Rightarrow> nat \<Rightarrow> ptr \<Rightarrow> nat \<Rightarrow> nat list \<Rightarrow> BasicKey list
     \<Rightarrow> (EmbedPQTree \<times> nat list \<times> BasicKey list) option" where
  "front_siblings t firstSon nextSon oldSib S keys =
     (case nextSon of
        None \<Rightarrow> Some (t, S, keys)
      | Some n \<Rightarrow>
          if n = firstSon then Some (t, S, keys)
          else
            (case heap t n of
               None \<Rightarrow> None
             | Some nd \<Rightarrow>
                 if status nd = Indicator
                 then
                   (case (if Some oldSib = getSib nd Left then setChangeDir n t else Some t) of
                      None \<Rightarrow> None
                    | Some t' \<Rightarrow>
                        front_siblings (pushPertinent n t') firstSon
                          (getNextSib nd (Some oldSib)) n S (keys @ [NodeKey n]))
                 else front_siblings t firstSon (getNextSib nd (Some oldSib)) n (n # S) keys))"

text \<open>The body of the outer loop of \<open>front\<close> for the node popped from the stack.\<close>

definition front_node ::
  "EmbedPQTree \<Rightarrow> nat \<Rightarrow> nat list \<Rightarrow> BasicKey list
     \<Rightarrow> (EmbedPQTree \<times> nat list \<times> BasicKey list) option" where
  "front_node t checkNode S keys =
     (case heap t checkNode of
        None \<Rightarrow> None
      | Some cn \<Rightarrow>
          if nodeType cn = Leaf then Some (t, S, keys @ [LeafKey (getKey cn)])
          else
            (case (if nodeType cn = PNode then m_referenceChild cn
                   else if nodeType cn = QNode then getEndmost cn Right
                   else None) of
               None \<Rightarrow> None
             | Some firstSon \<Rightarrow>
                 (case heap t firstSon of
                    None \<Rightarrow> None
                  | Some fd \<Rightarrow>
                      if status fd = Indicator
                      then
                        (case destroyNode firstSon (pushPertinent firstSon t) of
                           None \<Rightarrow> None
                         | Some t' \<Rightarrow>
                             front_siblings t' firstSon (getNextSib fd None) firstSon S
                               (keys @ [NodeKey firstSon]))
                      else
                        front_siblings t firstSon (getNextSib fd None) firstSon
                          (firstSon # S) keys)))"

partial_function (option) front_loop ::
  "EmbedPQTree \<Rightarrow> nat list \<Rightarrow> BasicKey list \<Rightarrow> (EmbedPQTree \<times> BasicKey list) option" where
  "front_loop t S keys =
     (case S of
        [] \<Rightarrow> Some (t, keys)
      | checkNode # S' \<Rightarrow>
          (case front_node t checkNode S' keys of
             None \<Rightarrow> None
           | Some (t', S'', keys') \<Rightarrow> front_loop t' S'' keys'))"

definition front :: "EmbedPQTree \<Rightarrow> ptr \<Rightarrow> BasicKey list \<Rightarrow> (EmbedPQTree \<times> BasicKey list) option" where
  "front t nodePtr keys =
     (case nodePtr of None \<Rightarrow> None | Some n \<Rightarrow> front_loop t [n] keys)"

text \<open>
  \<open>getFront\<close> is the same traversal without the three writes. The tree is threaded
  through it as through \<open>front\<close>, so that what it leaves behind can be stated.
\<close>

partial_function (option) getFront_siblings ::
  "EmbedPQTree \<Rightarrow> nat \<Rightarrow> ptr \<Rightarrow> nat \<Rightarrow> nat list \<Rightarrow> BasicKey list
     \<Rightarrow> (EmbedPQTree \<times> nat list \<times> BasicKey list) option" where
  "getFront_siblings t firstSon nextSon oldSib S keys =
     (case nextSon of
        None \<Rightarrow> Some (t, S, keys)
      | Some n \<Rightarrow>
          if n = firstSon then Some (t, S, keys)
          else
            (case heap t n of
               None \<Rightarrow> None
             | Some nd \<Rightarrow>
                 if status nd = Indicator
                 then getFront_siblings t firstSon (getNextSib nd (Some oldSib)) n S
                        (keys @ [NodeKey n])
                 else getFront_siblings t firstSon (getNextSib nd (Some oldSib)) n (n # S) keys))"

definition getFront_node ::
  "EmbedPQTree \<Rightarrow> nat \<Rightarrow> nat list \<Rightarrow> BasicKey list
     \<Rightarrow> (EmbedPQTree \<times> nat list \<times> BasicKey list) option" where
  "getFront_node t checkNode S keys =
     (case heap t checkNode of
        None \<Rightarrow> None
      | Some cn \<Rightarrow>
          if nodeType cn = Leaf then Some (t, S, keys @ [LeafKey (getKey cn)])
          else
            (case (if nodeType cn = PNode then m_referenceChild cn
                   else getEndmost cn Right) of
               None \<Rightarrow> None
             | Some firstSon \<Rightarrow>
                 (case heap t firstSon of
                    None \<Rightarrow> None
                  | Some fd \<Rightarrow>
                      if status fd = Indicator
                      then getFront_siblings t firstSon (getNextSib fd None) firstSon S
                             (keys @ [NodeKey firstSon])
                      else getFront_siblings t firstSon (getNextSib fd None) firstSon
                             (firstSon # S) keys)))"

partial_function (option) getFront_loop ::
  "EmbedPQTree \<Rightarrow> nat list \<Rightarrow> BasicKey list \<Rightarrow> (EmbedPQTree \<times> BasicKey list) option" where
  "getFront_loop t S keys =
     (case S of
        [] \<Rightarrow> Some (t, keys)
      | checkNode # S' \<Rightarrow>
          (case getFront_node t checkNode S' keys of
             None \<Rightarrow> None
           | Some (t', S'', keys') \<Rightarrow> getFront_loop t' S'' keys'))"

definition getFront :: "EmbedPQTree \<Rightarrow> ptr \<Rightarrow> BasicKey list \<Rightarrow> (EmbedPQTree \<times> BasicKey list) option" where
  "getFront t nodePtr keys =
     (case nodePtr of None \<Rightarrow> None | Some n \<Rightarrow> getFront_loop t [n] keys)"

subsection \<open>Trees in the store\<close>

text \<open>
  A shape is a tree of addresses: a leaf with its key, an indicator, or an interior node
  with its children in the order in which the sibling loop of \<open>front\<close> walks them, the
  first son first. \<open>wfT t sh\<close> says that the store of \<open>t\<close> holds the shape \<open>sh\<close>: each
  address holds a node of the right kind, the first son of an interior node is its
  reference child (P-node) or right endmost child (Q-node), and \<open>getNextSib\<close> leads from
  each child to the next and from the last one to \<open>nullptr\<close> or back to the first son.
\<close>

datatype shape = TLeaf nat "edge option" | TInd nat | TNode nat "shape list"

fun root :: "shape \<Rightarrow> nat" where
  "root (TLeaf a k) = a"
| "root (TInd a) = a"
| "root (TNode a cs) = a"

fun isInd :: "shape \<Rightarrow> bool" where
  "isInd (TInd a) = True"
| "isInd _ = False"

fun addrs :: "shape \<Rightarrow> nat list" where
  "addrs (TLeaf a k) = [a]"
| "addrs (TInd a) = [a]"
| "addrs (TNode a cs) = a # concat (map addrs cs)"

fun sibWalk :: "EmbedPQTree \<Rightarrow> nat \<Rightarrow> nat \<Rightarrow> ptr \<Rightarrow> nat list \<Rightarrow> bool" where
  "sibWalk t firstSon oldSib p [] = (p = None \<or> p = Some firstSon)"
| "sibWalk t firstSon oldSib p (w # ws) =
     (p = Some w \<and> w \<noteq> firstSon \<and>
      (case heap t w of
         None \<Rightarrow> False
       | Some nd \<Rightarrow> sibWalk t firstSon w (getNextSib nd (Some oldSib)) ws))"

definition firstSonOf :: "PQNode \<Rightarrow> ptr" where
  "firstSonOf nd = (if nodeType nd = PNode then m_referenceChild nd else getEndmost nd Right)"

fun wfT :: "EmbedPQTree \<Rightarrow> shape \<Rightarrow> bool" where
  "wfT t (TLeaf a k) =
     (case heap t a of
        None \<Rightarrow> False
      | Some nd \<Rightarrow> nodeType nd = Leaf \<and> status nd \<noteq> Indicator \<and> getKey nd = k)"
| "wfT t (TInd a) =
     (case heap t a of
        None \<Rightarrow> False
      | Some nd \<Rightarrow> status nd = Indicator \<and> getNodeInfo nd \<noteq> None)"
| "wfT t (TNode a cs) =
     (case heap t a of
        None \<Rightarrow> False
      | Some nd \<Rightarrow>
          nodeType nd \<noteq> Leaf \<and> status nd \<noteq> Indicator \<and>
          (case cs of
             [] \<Rightarrow> False
           | c # cs' \<Rightarrow>
               firstSonOf nd = Some (root c) \<and>
               (case heap t (root c) of
                  None \<Rightarrow> False
                | Some fd \<Rightarrow> sibWalk t (root c) (root c) (getNextSib fd None) (map root cs'))) \<and>
          (\<forall>c \<in> set cs. wfT t c))"

text \<open>
  The keys a scan of a shape emits: an interior node gives the indicators among its
  children at once, in the order of the walk, and pushes the other children, so that
  their keys follow in the reverse order of the walk.
\<close>

fun frontKeys :: "shape \<Rightarrow> BasicKey list" where
  "frontKeys (TLeaf a k) = [LeafKey k]"
| "frontKeys (TInd a) = []"
| "frontKeys (TNode a cs) =
     map (\<lambda>c. NodeKey (root c)) (filter isInd cs) @ concat (rev (map frontKeys cs))"

subsection \<open>Operations of the base class on the sibling ring\<close>

text \<open>
  Modelled from the spec: \<open>changeSiblings\<close> and \<open>putSibling\<close> of \<open>PQNode\<close> and
  \<open>exchangeNodes\<close>, \<open>removeChildFromSiblings\<close>, \<open>addNodeToNewParent\<close> and
  \<open>addNewLeavesToTree\<close> of \<open>PQTree\<close> are outside the sources at hand. The spec asks
  for a doubly linked ring with \<open>leftSibling\<close>, \<open>rightSibling\<close>, \<open>insertBetween\<close> and
  \<open>unlink\<close>: a node that is removed is unlinked from its siblings and from the pointers
  of its parent; a node that replaces another takes its parent and its siblings, and
  its place as the root of the tree when the other was the root; the
  children of a P-node form a ring entered at \<open>referenceChild\<close>, those of a Q-node a
  sequence between the two endmost children; \<open>childCount\<close> is the number of children.
  These operations are total on the store: a pointer to no node is passed over.
\<close>

definition updNode :: "nat \<Rightarrow> (PQNode \<Rightarrow> PQNode) \<Rightarrow> EmbedPQTree \<Rightarrow> EmbedPQTree" where
  "updNode a f t =
     (case heap t a of None \<Rightarrow> t | Some nd \<Rightarrow> t\<lparr>heap := (heap t)(a \<mapsto> f nd)\<rparr>)"

definition updPtr :: "ptr \<Rightarrow> (PQNode \<Rightarrow> PQNode) \<Rightarrow> EmbedPQTree \<Rightarrow> EmbedPQTree" where
  "updPtr p f t = (case p of None \<Rightarrow> t | Some a \<Rightarrow> updNode a f t)"

definition changeSiblings :: "ptr \<Rightarrow> ptr \<Rightarrow> PQNode \<Rightarrow> PQNode" where
  "changeSiblings oldSib newSib nd =
     (if m_sibLeft nd = oldSib then nd\<lparr>m_sibLeft := newSib\<rparr>
      else if m_sibRight nd = oldSib then nd\<lparr>m_sibRight := newSib\<rparr>
      else nd)"

definition putSibling :: "ptr \<Rightarrow> SibDirection \<Rightarrow> PQNode \<Rightarrow> PQNode" where
  "putSibling newSib preference nd =
     (if preference = Left
      then (if m_sibLeft nd = None then nd\<lparr>m_sibLeft := newSib\<rparr> else nd\<lparr>m_sibRight := newSib\<rparr>)
      else (if m_sibRight nd = None then nd\<lparr>m_sibRight := newSib\<rparr> else nd\<lparr>m_sibLeft := newSib\<rparr>))"

definition emptyPQNode :: "PQNodeType \<Rightarrow> PQNodeStatus \<Rightarrow> PQNode" where
  "emptyPQNode ty st =
     \<lparr>nodeType = ty, status = st, m_parent = None, m_sibLeft = None, m_sibRight = None,
      m_leftEndmost = None, m_rightEndmost = None, m_referenceChild = None,
      m_childCount = 0, fullChildren = [], getKey = None, getNodeInfo = None\<rparr>"

definition newPQLeaf :: "PQNodeStatus \<Rightarrow> edge \<Rightarrow> PQNode" where
  "newPQLeaf st k = (emptyPQNode Leaf st)\<lparr>getKey := Some k\<rparr>"

definition newPQInternalNode :: "PQNodeType \<Rightarrow> PQNodeStatus \<Rightarrow> PQNode" where
  "newPQInternalNode ty st = emptyPQNode ty st"

text \<open>An indicator is told from the other nodes by its status alone.\<close>

definition newEmbedIndicator :: "IndInfo \<Rightarrow> PQNode" where
  "newEmbedIndicator info = (emptyPQNode Leaf Indicator)\<lparr>getNodeInfo := Some info\<rparr>"

text \<open>\<open>new T(m_identificationNumber++, ...)\<close>: the address of the node and the tree.\<close>

definition allocNode :: "PQNode \<Rightarrow> EmbedPQTree \<Rightarrow> nat \<times> EmbedPQTree" where
  "allocNode nd t =
     (m_identificationNumber t,
      t\<lparr>heap := (heap t)(m_identificationNumber t \<mapsto> nd),
        m_identificationNumber := Suc (m_identificationNumber t)\<rparr>)"

text \<open>\<open>replacePtr a q p\<close>: the pointer \<open>p\<close>, with \<open>q\<close> in place of a pointer to \<open>a\<close>.\<close>

definition replacePtr :: "nat \<Rightarrow> ptr \<Rightarrow> ptr \<Rightarrow> ptr" where
  "replacePtr a q p = (if p = Some a then q else p)"

text \<open>
  Modelled from the spec: \<open>PQTree::exchangeNodes\<close> is outside the sources at hand. The
  new node takes the parent and the siblings of the old one, every pointer of the
  parent and of the siblings to the old node is turned to the new one, and the new
  node is the root of the tree when the old one was.
\<close>

definition exchangeNodes :: "nat \<Rightarrow> nat \<Rightarrow> EmbedPQTree \<Rightarrow> EmbedPQTree" where
  "exchangeNodes oldNode newNode t =
     (case heap t oldNode of
        None \<Rightarrow> t
      | Some old \<Rightarrow>
          (updNode newNode
            (\<lambda>n. n\<lparr>m_parent := m_parent old,
                   m_sibLeft := replacePtr oldNode (Some newNode) (m_sibLeft old),
                   m_sibRight := replacePtr oldNode (Some newNode) (m_sibRight old)\<rparr>)
            (updPtr (m_sibRight old) (changeSiblings (Some oldNode) (Some newNode))
              (updPtr (m_sibLeft old) (changeSiblings (Some oldNode) (Some newNode))
                (updPtr (m_parent old)
                  (\<lambda>p. p\<lparr>m_referenceChild := replacePtr oldNode (Some newNode) (m_referenceChild p),
                         m_leftEndmost := replacePtr oldNode (Some newNode) (m_leftEndmost p),
                         m_rightEndmost := replacePtr oldNode (Some newNode) (m_rightEndmost p)\<rparr>)
                  t))))
            \<lparr>m_root := replacePtr oldNode (Some newNode) (m_root t)\<rparr>)"

text \<open>
  Modelled from the spec: \<open>PQTree::removeChildFromSiblings\<close> is outside the sources at
  hand. The node is unlinked: its two siblings are linked to each other, a pointer of
  the parent to it moves on to its sibling, and its own sibling pointers are cleared.
  The child count is left to the caller, as \<open>ReplacePartialRoot\<close> and
  \<open>ReplaceFullRoot\<close> set it themselves.
\<close>

definition removeChildFromSiblings :: "nat \<Rightarrow> EmbedPQTree \<Rightarrow> EmbedPQTree" where
  "removeChildFromSiblings n t =
     (case heap t n of
        None \<Rightarrow> t
      | Some nd \<Rightarrow>
          updNode n (\<lambda>x. x\<lparr>m_sibLeft := None, m_sibRight := None\<rparr>)
            (updPtr (m_sibLeft nd) (changeSiblings (Some n) (replacePtr n None (m_sibRight nd)))
              (updPtr (m_sibRight nd) (changeSiblings (Some n) (replacePtr n None (m_sibLeft nd)))
                (updPtr (m_parent nd)
                  (\<lambda>p. p\<lparr>m_referenceChild :=
                           replacePtr n (replacePtr n None (m_sibRight nd)) (m_referenceChild p),
                         m_leftEndmost := replacePtr n (getNextSib nd None) (m_leftEndmost p),
                         m_rightEndmost := replacePtr n (getNextSib nd None) (m_rightEndmost p)\<rparr>)
                  t))))"

text \<open>
  Modelled from the spec: \<open>PQTree::addNodeToNewParent\<close> is outside the sources at hand.
  \<open>addNodeToNewParent parent child leftBrother rightBrother\<close> puts \<open>child\<close> between the
  two brothers; with a parent given (one brother is \<open>nullptr\<close>) the child becomes an
  endmost child of the parent.
\<close>

definition addNodeToNewParent :: "ptr \<Rightarrow> nat \<Rightarrow> ptr \<Rightarrow> ptr \<Rightarrow> EmbedPQTree \<Rightarrow> EmbedPQTree" where
  "addNodeToNewParent parent child leftBrother rightBrother t =
     updNode child (\<lambda>c. c\<lparr>m_parent := parent, m_sibLeft := leftBrother, m_sibRight := rightBrother\<rparr>)
       (updPtr rightBrother (changeSiblings leftBrother (Some child))
         (updPtr leftBrother (changeSiblings rightBrother (Some child))
           (updPtr parent
             (\<lambda>p. p\<lparr>m_childCount := m_childCount p + 1,
                    m_leftEndmost :=
                      (if m_leftEndmost p \<noteq> None \<and> m_leftEndmost p \<in> {leftBrother, rightBrother}
                       then Some child else m_leftEndmost p),
                    m_rightEndmost :=
                      (if m_rightEndmost p \<noteq> None \<and> m_rightEndmost p \<in> {leftBrother, rightBrother}
                       then Some child else m_rightEndmost p)\<rparr>)
             t)))"

text \<open>
  Modelled from the spec: \<open>PQTree::addNewLeavesToTree\<close> is outside the sources at hand.
  \<open>addNewLeavesToTree father leafKeys\<close> makes one new leaf per key, at consecutive
  addresses, and hangs them under \<open>father\<close>: as a ring whose reference child is the
  first leaf when the father is a P-node, as a sequence from the left endmost to the
  right endmost child when it is a Q-node.
\<close>

definition newLeafAt :: "PQNodeType \<Rightarrow> nat \<Rightarrow> nat \<Rightarrow> edge list \<Rightarrow> nat \<Rightarrow> PQNode" where
  "newLeafAt fatherType father base leafKeys i =
     (newPQLeaf Empty (leafKeys ! i))
       \<lparr>m_parent := Some father,
        m_sibLeft :=
          (if fatherType = PNode then Some (base + (i + length leafKeys - 1) mod length leafKeys)
           else if i = 0 then None else Some (base + i - 1)),
        m_sibRight :=
          (if fatherType = PNode then Some (base + (i + 1) mod length leafKeys)
           else if Suc i = length leafKeys then None else Some (base + i + 1))\<rparr>"

definition addNewLeavesToTree :: "nat \<Rightarrow> edge list \<Rightarrow> EmbedPQTree \<Rightarrow> EmbedPQTree" where
  "addNewLeavesToTree father leafKeys t =
     (case heap t father of
        None \<Rightarrow> t
      | Some fnd \<Rightarrow>
          if leafKeys = [] then t
          else
            t\<lparr>heap :=
                (\<lambda>a. if m_identificationNumber t \<le> a \<and>
                         a < m_identificationNumber t + length leafKeys
                      then Some (newLeafAt (nodeType fnd) father (m_identificationNumber t)
                                   leafKeys (a - m_identificationNumber t))
                      else if a = father
                      then Some
                        (if nodeType fnd = PNode
                         then fnd\<lparr>m_childCount := m_childCount fnd + int (length leafKeys),
                                 m_referenceChild := Some (m_identificationNumber t)\<rparr>
                         else fnd\<lparr>m_childCount := m_childCount fnd + int (length leafKeys),
                                 m_leftEndmost := Some (m_identificationNumber t),
                                 m_rightEndmost :=
                                   Some (m_identificationNumber t + length leafKeys - 1)\<rparr>)
                      else heap t a),
              m_identificationNumber := m_identificationNumber t + length leafKeys\<rparr>)"

subsection \<open>Initialization\<close>

datatype error = InvalidInput | NonPlanarFailure

text \<open>
  Modelled from the spec: \<open>PQTree::Initialize\<close> is outside the sources at hand.
  It builds a tree whose root is a single P-node with one leaf child per key when there
  are at least two keys, a bare leaf for one key, and fails with \<open>InvalidInput\<close> when
  the list of keys is empty.
\<close>

definition PQTree_Initialize :: "edge list \<Rightarrow> EmbedPQTree \<Rightarrow> error + EmbedPQTree" where
  "PQTree_Initialize leafKeys t =
     (case leafKeys of
        [] \<Rightarrow> Inl InvalidInput
      | [k] \<Rightarrow>
          (case allocNode (newPQLeaf Empty k) t of
             (leaf, t') \<Rightarrow> Inr (t'\<lparr>m_root := Some leaf\<rparr>))
      | _ \<Rightarrow>
          (case allocNode (newPQInternalNode PNode Empty) t of
             (r, t') \<Rightarrow> Inr (addNewLeavesToTree r leafKeys (t'\<lparr>m_root := Some r\<rparr>))))"

text \<open>
  \<open>EmbedPQTree::Initialize\<close> casts every key to the key type of the base class and
  calls the base class. A leaf key is its edge here, and the cast is the identity.
\<close>

definition Initialize :: "edge list \<Rightarrow> EmbedPQTree \<Rightarrow> error + EmbedPQTree" where
  "Initialize leafKeys t = PQTree_Initialize (map (\<lambda>key. key) leafKeys) t"

text \<open>The tree before \<open>Initialize\<close>: no node, no root.\<close>

definition emptyPQTree :: EmbedPQTree where
  "emptyPQTree =
     \<lparr>heap = (\<lambda>a. None), m_pertinentNodes = [], m_pertinentRoot = None, m_root = None,
      m_identificationNumber = 0\<rparr>"

subsection \<open>Replacing the pertinent root\<close>

text \<open>
  The part of \<open>ReplaceFullRoot\<close> that both branches share when \<open>addIndicator\<close> is set:
  the new indicator is put between the pertinent root and its next sibling away from
  \<open>opposite\<close>, with its left pointer at the pertinent root.
\<close>

definition insertIndicator :: "nat \<Rightarrow> nat \<Rightarrow> ptr \<Rightarrow> EmbedPQTree \<Rightarrow> EmbedPQTree option" where
  "insertIndicator pertRoot newInd opposite t =
     (case heap t pertRoot of
        None \<Rightarrow> None
      | Some prd \<Rightarrow>
          (case getNextSib prd opposite of
             None \<Rightarrow>
               Some (updNode newInd
                       (\<lambda>i. putSibling None Right
                               (putSibling (Some pertRoot) Left
                                 (changeSiblings None None
                                   (changeSiblings (Some pertRoot) None i))))
                       (addNodeToNewParent (m_parent prd) newInd (Some pertRoot) None t))
           | Some opp \<Rightarrow>
               Some (updNode newInd
                       (\<lambda>i. putSibling (Some opp) Right
                               (putSibling (Some pertRoot) Left
                                 (changeSiblings (Some opp) None
                                   (changeSiblings (Some pertRoot) None i))))
                       (addNodeToNewParent None newInd (Some pertRoot) (Some opp) t))))"

text \<open>The loop \<open>while (!fullChildren(m_pertinentRoot)->empty())\<close> of \<open>ReplaceFullRoot\<close>.\<close>

fun removeFullChildren :: "nat list \<Rightarrow> EmbedPQTree \<Rightarrow> EmbedPQTree" where
  "removeFullChildren [] t = t"
| "removeFullChildren (currentNode # rest) t =
     removeFullChildren rest (removeChildFromSiblings currentNode t)"

definition ReplaceFullRoot ::
  "EmbedPQTree \<Rightarrow> edge list \<Rightarrow> BasicKey list \<Rightarrow> node \<Rightarrow> bool \<Rightarrow> ptr
     \<Rightarrow> (EmbedPQTree \<times> BasicKey list) option" where
  "ReplaceFullRoot t leafKeys frontier v addIndicator opposite =
     (case front t (m_pertinentRoot t) frontier of
        None \<Rightarrow> None
      | Some (t1, frontier') \<Rightarrow>
          (case m_pertinentRoot t1 of
             None \<Rightarrow> None
           | Some pertRoot \<Rightarrow>
               (case (if addIndicator
                      then (case allocNode (newEmbedIndicator (newIndInfo v)) t1 of
                              (newInd, t2) \<Rightarrow> (Some newInd, t2))
                      else (None, t1)) of
                  (newInd, t2) \<Rightarrow>
                    if leafKeys \<noteq> [] \<and> hd leafKeys = last leafKeys
                    then
                      (case (case newInd of
                               None \<Rightarrow> Some t2
                             | Some i \<Rightarrow> insertIndicator pertRoot i opposite t2) of
                         None \<Rightarrow> None
                       | Some t3 \<Rightarrow>
                           (case allocNode (newPQLeaf Empty (hd leafKeys)) t3 of
                              (leafPtr, t4) \<Rightarrow>
                                Some ((exchangeNodes pertRoot leafPtr t4)
                                        \<lparr>m_root := (if m_root t4 = Some pertRoot then Some leafPtr
                                                    else m_root t4),
                                         m_pertinentRoot := None\<rparr>,
                                      frontier')))
                    else if leafKeys \<noteq> []
                    then
                      (case (case newInd of
                               None \<Rightarrow> Some t2
                             | Some i \<Rightarrow> insertIndicator pertRoot i opposite t2) of
                         None \<Rightarrow> None
                       | Some t3 \<Rightarrow>
                           (case heap t3 pertRoot of
                              None \<Rightarrow> None
                            | Some prd \<Rightarrow>
                                if nodeType prd = PNode \<or> nodeType prd = QNode
                                then
                                  Some (addNewLeavesToTree pertRoot leafKeys
                                          (updNode pertRoot (\<lambda>x. x\<lparr>fullChildren := []\<rparr>)
                                            (removeFullChildren (fullChildren prd)
                                              (updNode pertRoot
                                                (\<lambda>x. x\<lparr>nodeType := PNode, m_childCount := 0\<rparr>) t3))),
                                        frontier')
                                else
                                  (case allocNode (newPQInternalNode PNode Empty) t3 of
                                     (nodePtr, t4) \<Rightarrow>
                                       Some (addNewLeavesToTree nodePtr leafKeys
                                               ((exchangeNodes pertRoot nodePtr t4)
                                                  \<lparr>m_pertinentRoot := None\<rparr>),
                                             frontier'))))
                    else Some (t2, frontier'))))"

text \<open>
  The first loop of \<open>ReplacePartialRoot\<close>, over the full children popped from the list
  of the pertinent root: it finds the two ends of the sequence of full children. The
  result is \<open>(predNode, beginSequence, endSequence, beginInd)\<close>.
\<close>

definition isNullOrEmpty :: "EmbedPQTree \<Rightarrow> ptr \<Rightarrow> bool option" where
  "isNullOrEmpty t p =
     (case p of
        None \<Rightarrow> Some True
      | Some n \<Rightarrow> map_option (\<lambda>nd. status nd = Empty) (heap t n))"

fun findSequence ::
  "EmbedPQTree \<Rightarrow> nat list \<Rightarrow> ptr \<times> ptr \<times> ptr \<times> ptr \<Rightarrow> (ptr \<times> ptr \<times> ptr \<times> ptr) option" where
  "findSequence t [] acc = Some acc"
| "findSequence t (currentNode # rest) (predNode, beginSequence, endSequence, beginInd) =
     (case clientSibLeft t currentNode of
        None \<Rightarrow> None
      | Some left \<Rightarrow>
          (case isNullOrEmpty t left of
             None \<Rightarrow> None
           | Some True \<Rightarrow>
               if beginSequence = None
               then (case PQTree_clientSibLeft t currentNode of
                       None \<Rightarrow> None
                     | Some ind \<Rightarrow> findSequence t rest (left, Some currentNode, endSequence, ind))
               else findSequence t rest (predNode, beginSequence, Some currentNode, beginInd)
           | Some False \<Rightarrow>
               (case clientSibRight t currentNode of
                  None \<Rightarrow> None
                | Some right \<Rightarrow>
                    (case isNullOrEmpty t right of
                       None \<Rightarrow> None
                     | Some True \<Rightarrow>
                         if beginSequence = None
                         then (case PQTree_clientSibRight t currentNode of
                                 None \<Rightarrow> None
                               | Some ind \<Rightarrow>
                                   findSequence t rest (right, Some currentNode, endSequence, ind))
                         else findSequence t rest (predNode, beginSequence, Some currentNode, beginInd)
                     | Some False \<Rightarrow>
                         findSequence t rest (predNode, beginSequence, endSequence, beginInd)))))"

text \<open>
  The loop \<open>while (currentInd != nextNode)\<close> over the indicators between two full
  children: each is flagged when it is entered from its right sibling, its key is
  appended to the frontier, and it is unlinked and handed to \<open>m_pertinentNodes\<close>.
\<close>

partial_function (option) scanIndicators ::
  "EmbedPQTree \<Rightarrow> nat \<Rightarrow> ptr \<Rightarrow> ptr \<Rightarrow> BasicKey list \<Rightarrow> (EmbedPQTree \<times> BasicKey list) option" where
  "scanIndicators t currentNode currentInd nextNode frontier =
     (if currentInd = nextNode then Some (t, frontier)
      else
        (case currentInd of
           None \<Rightarrow> None
         | Some i \<Rightarrow>
             (case heap t i of
                None \<Rightarrow> None
              | Some ind \<Rightarrow>
                  (case (if Some currentNode = getSib ind Right then setChangeDir i t else Some t) of
                     None \<Rightarrow> None
                   | Some t' \<Rightarrow>
                       scanIndicators
                         (pushPertinent i (removeChildFromSiblings i t'))
                         currentNode (getNextSib ind (Some currentNode)) nextNode
                         (frontier @ [NodeKey i])))))"

text \<open>
  The loop \<open>while (currentNode != endSequence)\<close>: the frontier of every full child but
  the last is scanned and the child is removed. The assertion that the next node is
  not \<open>nullptr\<close> is a failure of the model.
\<close>

partial_function (option) scanSequence ::
  "EmbedPQTree \<Rightarrow> nat \<Rightarrow> nat \<Rightarrow> ptr \<Rightarrow> ptr \<Rightarrow> BasicKey list
     \<Rightarrow> (EmbedPQTree \<times> nat \<times> BasicKey list) option" where
  "scanSequence t currentNode endSequence predNode beginInd frontier =
     (if currentNode = endSequence then Some (t, currentNode, frontier)
      else
        (case clientNextSib t currentNode predNode of
           None \<Rightarrow> None
         | Some nextNode \<Rightarrow>
             (case front t (Some currentNode) [] of
                None \<Rightarrow> None
              | Some (t1, partialFrontier) \<Rightarrow>
                  (case PQTree_clientNextSib t1 currentNode beginInd of
                     None \<Rightarrow> None
                   | Some currentInd \<Rightarrow>
                       (case scanIndicators t1 currentNode currentInd nextNode
                               (frontier @ partialFrontier) of
                          None \<Rightarrow> None
                        | Some (t2, frontier') \<Rightarrow>
                            (case nextNode of
                               None \<Rightarrow> None
                             | Some nxt \<Rightarrow>
                                 scanSequence (removeChildFromSiblings currentNode t2) nxt
                                   endSequence predNode beginInd frontier'))))))"

definition ReplacePartialRoot ::
  "EmbedPQTree \<Rightarrow> edge list \<Rightarrow> BasicKey list \<Rightarrow> node \<Rightarrow> (EmbedPQTree \<times> BasicKey list) option" where
  "ReplacePartialRoot t leafKeys frontier v =
     (case m_pertinentRoot t of
        None \<Rightarrow> None
      | Some pertRoot \<Rightarrow>
          (case heap t pertRoot of
             None \<Rightarrow> None
           | Some prd \<Rightarrow>
               (case findSequence
                       (updNode pertRoot
                          (\<lambda>x. x\<lparr>m_childCount :=
                                   m_childCount x + 1 - int (length (fullChildren x))\<rparr>) t)
                       (fullChildren prd) (None, None, None, None) of
                  None \<Rightarrow> None
                | Some (predNode, beginSequence, endSequence, beginInd) \<Rightarrow>
                    (case (beginSequence, endSequence) of
                       (Some b, Some e) \<Rightarrow>
                         (case scanSequence
                                 (updNode pertRoot
                                    (\<lambda>x. x\<lparr>m_childCount :=
                                             m_childCount x + 1 - int (length (fullChildren x)),
                                           fullChildren := []\<rparr>) t)
                                 b e predNode beginInd frontier of
                            None \<Rightarrow> None
                          | Some (t1, currentNode, frontier1) \<Rightarrow>
                              (case ReplaceFullRoot
                                      ((updNode currentNode (\<lambda>x. x\<lparr>m_parent := Some pertRoot\<rparr>) t1)
                                         \<lparr>m_pertinentRoot := Some currentNode\<rparr>)
                                      leafKeys [] v True beginInd of
                                 None \<Rightarrow> None
                               | Some (t2, partialFrontier) \<Rightarrow>
                                   Some (t2, frontier1 @ partialFrontier)))
                     | _ \<Rightarrow> None))))"

text \<open>
  The last loop of \<open>ReplaceRoot\<close>: the entries of the node frontier are read in order;
  the edge of a leaf key goes to \<open>frontier\<close>, the vertex of an indicator to \<open>opposed\<close>
  when its \<open>changeDir\<close> is set and to \<open>nonOpposed\<close> when it is not. The flag is read
  from the store at that moment. An entry that points to no key is an error.
\<close>

fun scanNodeFrontier ::
  "EmbedPQTree \<Rightarrow> BasicKey list \<Rightarrow> edge list \<times> node list \<times> node list
     \<Rightarrow> (edge list \<times> node list \<times> node list) option" where
  "scanNodeFrontier t [] out = Some out"
| "scanNodeFrontier t (LeafKey k # nodeFrontier) (frontier, opposed, nonOpposed) =
     (case k of
        None \<Rightarrow> None
      | Some e \<Rightarrow> scanNodeFrontier t nodeFrontier (frontier @ [e], opposed, nonOpposed))"
| "scanNodeFrontier t (NodeKey i # nodeFrontier) (frontier, opposed, nonOpposed) =
     (case heap t i of
        None \<Rightarrow> None
      | Some nd \<Rightarrow>
          (case getNodeInfo nd of
             None \<Rightarrow> None
           | Some info \<Rightarrow>
               if changeDir info
               then scanNodeFrontier t nodeFrontier
                      (frontier, opposed @ [associatedNode info], nonOpposed)
               else scanNodeFrontier t nodeFrontier
                      (frontier, opposed, nonOpposed @ [associatedNode info])))"

definition ReplaceRoot ::
  "EmbedPQTree \<Rightarrow> edge list \<Rightarrow> edge list \<Rightarrow> node list \<Rightarrow> node list \<Rightarrow> node
     \<Rightarrow> (EmbedPQTree \<times> edge list \<times> node list \<times> node list) option" where
  "ReplaceRoot t leafKeys frontier opposed nonOpposed v =
     (case (if leafKeys = [] \<and> m_pertinentRoot t = m_root t
            then (case front t (m_pertinentRoot t) [] of
                    None \<Rightarrow> None
                  | Some (t1, nodeFrontier) \<Rightarrow> Some (t1\<lparr>m_pertinentRoot := None\<rparr>, nodeFrontier))
            else (case m_pertinentRoot t of
                    None \<Rightarrow> None
                  | Some pertRoot \<Rightarrow>
                      (case heap t pertRoot of
                         None \<Rightarrow> None
                       | Some prd \<Rightarrow>
                           if status prd = Full
                           then ReplaceFullRoot t leafKeys [] v False None
                           else ReplacePartialRoot t leafKeys [] v))) of
        None \<Rightarrow> None
      | Some (t', nodeFrontier) \<Rightarrow>
          (case scanNodeFrontier t' nodeFrontier (frontier, opposed, nonOpposed) of
             None \<Rightarrow> None
           | Some (frontier', opposed', nonOpposed') \<Rightarrow>
               Some (t', frontier', opposed', nonOpposed')))"

subsection \<open>What a scan leaves behind\<close>

text \<open>
  \<open>isIndAt t w\<close>: the node at \<open>w\<close> is an indicator. \<open>notIndicator t p\<close>: the pointer
  \<open>p\<close> is \<open>nullptr\<close> or points to a node that is not an indicator.
\<close>

definition isIndAt :: "EmbedPQTree \<Rightarrow> nat \<Rightarrow> bool" where
  "isIndAt t w = (case heap t w of None \<Rightarrow> False | Some nd \<Rightarrow> status nd = Indicator)"



text \<open>
  What \<open>front\<close> does to an indicator it meets: the first son of the scanned node
  (reached from no sibling, \<open>None\<close>) is marked for destruction; any other indicator,
  reached from the sibling \<open>old\<close>, has its flag set when its left pointer is \<open>old\<close>.
\<close>

definition visitNode :: "ptr \<Rightarrow> PQNode \<Rightarrow> PQNode" where
  "visitNode oldSib nd =
     (case oldSib of
        None \<Rightarrow> nd\<lparr>status := ToBeDeleted\<rparr>
      | Some old \<Rightarrow>
          if m_sibLeft nd = Some old
          then nd\<lparr>getNodeInfo := map_option (\<lambda>i. i\<lparr>changeDir := True\<rparr>) (getNodeInfo nd)\<rparr>
          else nd)"

text \<open>
  \<open>scanned t t' vs\<close>: the tree \<open>t'\<close> is \<open>t\<close> after the visits \<open>vs\<close>, each a pair of the
  sibling the loop came from and the indicator met: the indicators are changed as
  \<open>visitNode\<close> says and appended to \<open>m_pertinentNodes\<close> in the order of the visits;
  every other node and every other member of the tree is as it was.
\<close>

definition scanned :: "EmbedPQTree \<Rightarrow> EmbedPQTree \<Rightarrow> (ptr \<times> nat) list \<Rightarrow> bool" where
  "scanned t t' vs \<longleftrightarrow>
     (\<forall>a. a \<notin> snd ` set vs \<longrightarrow> heap t' a = heap t a) \<and>
     (\<forall>(old, i) \<in> set vs. heap t' i = map_option (visitNode old) (heap t i)) \<and>
     m_pertinentNodes t' = m_pertinentNodes t @ map snd vs \<and>
     m_pertinentRoot t' = m_pertinentRoot t \<and>
     m_root t' = m_root t \<and>
     m_identificationNumber t' = m_identificationNumber t"

text \<open>The visits of a scan of a shape, in the order in which they happen.\<close>

fun sibVisits :: "nat \<Rightarrow> shape list \<Rightarrow> (ptr \<times> nat) list" where
  "sibVisits old [] = []"
| "sibVisits old (c # cs) =
     (if isInd c then [(Some old, root c)] else []) @ sibVisits (root c) cs"

fun childVisits :: "shape list \<Rightarrow> (ptr \<times> nat) list" where
  "childVisits [] = []"
| "childVisits (c # cs) = (if isInd c then [(None, root c)] else []) @ sibVisits (root c) cs"

fun visits :: "shape \<Rightarrow> (ptr \<times> nat) list" where
  "visits (TLeaf a k) = []"
| "visits (TInd a) = []"
| "visits (TNode a cs) = childVisits cs @ concat (rev (map visits cs))"

text \<open>The leaf keys of a shape in the order of the frontier.\<close>

fun leaves :: "shape \<Rightarrow> edge option list" where
  "leaves (TLeaf a k) = [k]"
| "leaves (TInd a) = []"
| "leaves (TNode a cs) = concat (rev (map leaves cs))"

text \<open>
  The frame of \<open>front\<close> on any store. \<open>sameButFlags nd nd'\<close>: the node \<open>nd'\<close> is \<open>nd\<close>
  but for its status, which is unchanged or \<open>ToBeDeleted\<close>, and the flag of its
  indicator information, which is unchanged or set.
\<close>

definition sameButFlags :: "PQNode \<Rightarrow> PQNode \<Rightarrow> bool" where
  "sameButFlags nd nd' \<longleftrightarrow>
     nodeType nd' = nodeType nd \<and> m_parent nd' = m_parent nd \<and>
     m_sibLeft nd' = m_sibLeft nd \<and> m_sibRight nd' = m_sibRight nd \<and>
     m_leftEndmost nd' = m_leftEndmost nd \<and> m_rightEndmost nd' = m_rightEndmost nd \<and>
     m_referenceChild nd' = m_referenceChild nd \<and> m_childCount nd' = m_childCount nd \<and>
     fullChildren nd' = fullChildren nd \<and> getKey nd' = getKey nd \<and>
     (status nd' = status nd \<or> status nd' = ToBeDeleted) \<and>
     (getNodeInfo nd' = getNodeInfo nd \<or>
      getNodeInfo nd' = map_option (\<lambda>i. i\<lparr>changeDir := True\<rparr>) (getNodeInfo nd))"


text \<open>The indicators among the entries of a frontier.\<close>

fun nodeKeys :: "BasicKey list \<Rightarrow> nat list" where
  "nodeKeys [] = []"
| "nodeKeys (LeafKey k # ks) = nodeKeys ks"
| "nodeKeys (NodeKey i # ks) = i # nodeKeys ks"

fun leafKeysOf :: "BasicKey list \<Rightarrow> edge option list" where
  "leafKeysOf [] = []"
| "leafKeysOf (LeafKey k # ks) = k # leafKeysOf ks"
| "leafKeysOf (NodeKey i # ks) = leafKeysOf ks"

text \<open>The information of the indicator at an address, its flag and its vertex.\<close>

definition infoAt :: "EmbedPQTree \<Rightarrow> nat \<Rightarrow> IndInfo option" where
  "infoAt t i = (case heap t i of None \<Rightarrow> None | Some nd \<Rightarrow> getNodeInfo nd)"

definition changeDirAt :: "EmbedPQTree \<Rightarrow> nat \<Rightarrow> bool" where
  "changeDirAt t i = (case infoAt t i of None \<Rightarrow> False | Some info \<Rightarrow> changeDir info)"

definition vertexAt :: "EmbedPQTree \<Rightarrow> nat \<Rightarrow> node" where
  "vertexAt t i = (case infoAt t i of None \<Rightarrow> 0 | Some info \<Rightarrow> associatedNode info)"




text \<open>
  The shape of the children that \<open>addNewLeavesToTree\<close> hangs under a P-node, in the
  order of the sibling loop: the first leaf, which is the reference child, then the
  other leaves from the last to the second. \<open>initShape\<close> is the shape of the tree that
  \<open>Initialize\<close> builds at the address \<open>base\<close>.
\<close>

definition ringShape :: "nat \<Rightarrow> edge list \<Rightarrow> shape list" where
  "ringShape base leafKeys =
     TLeaf base (Some (leafKeys ! 0)) #
     map (\<lambda>i. TLeaf (base + i) (Some (leafKeys ! i))) (rev [1..<length leafKeys])"

definition initShape :: "nat \<Rightarrow> edge list \<Rightarrow> shape" where
  "initShape base leafKeys =
     (case leafKeys of
        [k] \<Rightarrow> TLeaf base (Some k)
      | _ \<Rightarrow> TNode base (ringShape (Suc base) leafKeys))"



text \<open>
  What the sibling operations never change in a node: its type, status, child count,
  key and indicator information.
\<close>

definition sameKind :: "PQNode \<Rightarrow> PQNode \<Rightarrow> bool" where
  "sameKind nd nd' \<longleftrightarrow>
     nodeType nd' = nodeType nd \<and> status nd' = status nd \<and>
     m_childCount nd' = m_childCount nd \<and> getKey nd' = getKey nd \<and>
     getNodeInfo nd' = getNodeInfo nd"


subsection \<open>Example trees\<close>

definition leafNode :: "PQNodeStatus \<Rightarrow> edge \<Rightarrow> ptr \<Rightarrow> ptr \<Rightarrow> ptr \<Rightarrow> PQNode" where
  "leafNode st k par l r = (newPQLeaf st k)\<lparr>m_parent := par, m_sibLeft := l, m_sibRight := r\<rparr>"

definition indicatorNode :: "node \<Rightarrow> ptr \<Rightarrow> ptr \<Rightarrow> ptr \<Rightarrow> PQNode" where
  "indicatorNode w par l r =
     (newEmbedIndicator (newIndInfo w))\<lparr>m_parent := par, m_sibLeft := l, m_sibRight := r\<rparr>"

definition qNode :: "PQNodeStatus \<Rightarrow> ptr \<Rightarrow> ptr \<Rightarrow> int \<Rightarrow> nat list \<Rightarrow> PQNode" where
  "qNode st le re n full =
     (newPQInternalNode QNode st)
       \<lparr>m_leftEndmost := le, m_rightEndmost := re, m_childCount := n, fullChildren := full\<rparr>"

definition pNode :: "PQNodeStatus \<Rightarrow> ptr \<Rightarrow> int \<Rightarrow> nat list \<Rightarrow> PQNode" where
  "pNode st ref n full =
     (newPQInternalNode PNode st)\<lparr>m_referenceChild := ref, m_childCount := n, fullChildren := full\<rparr>"

definition treeOf ::
  "(nat \<times> PQNode) list \<Rightarrow> nat list \<Rightarrow> ptr \<Rightarrow> ptr \<Rightarrow> nat \<Rightarrow> EmbedPQTree" where
  "treeOf nodes pert pertRoot r idn =
     \<lparr>heap = map_of nodes, m_pertinentNodes = pert, m_pertinentRoot = pertRoot, m_root = r,
      m_identificationNumber = idn\<rparr>"

text \<open>
  A Q-node (address 0) whose children are, from left to right, the leaf 2 with the
  edge 10, the indicator 3 of the vertex 7 and the leaf 4 with the edge 11. The left
  pointer of the indicator points to the leaf 2.
\<close>

definition exQ :: EmbedPQTree where
  "exQ = treeOf
     [(0, qNode Full (Some 2) (Some 4) 2 [2, 4]),
      (2, leafNode Full 10 (Some 0) None (Some 3)),
      (3, indicatorNode 7 None (Some 2) (Some 4)),
      (4, leafNode Full 11 (Some 0) (Some 3) None)]
     [] (Some 0) (Some 0) 5"

definition exQshape :: shape where
  "exQshape = TNode 0 [TLeaf 4 (Some 11), TInd 3, TLeaf 2 (Some 10)]"

text \<open>The same tree with the pointers of the indicator exchanged: its left pointer
  points to the leaf 4.\<close>

definition exQflip :: EmbedPQTree where
  "exQflip = treeOf
     [(0, qNode Full (Some 2) (Some 4) 2 [2, 4]),
      (2, leafNode Full 10 (Some 0) None (Some 3)),
      (3, indicatorNode 7 None (Some 4) (Some 2)),
      (4, leafNode Full 11 (Some 0) (Some 3) None)]
     [] (Some 0) (Some 0) 5"

text \<open>
  A full P-node (address 0) with the two full leaves 2 (edge 10) and 3 (edge 11) in a
  ring; the leaf 2 is the reference child.
\<close>

definition exP :: EmbedPQTree where
  "exP = treeOf
     [(0, pNode Full (Some 2) 2 [2, 3]),
      (2, leafNode Full 10 (Some 0) (Some 3) (Some 3)),
      (3, leafNode Full 11 (Some 0) (Some 2) (Some 2))]
     [] (Some 0) (Some 0) 4"

definition exPshape :: shape where
  "exPshape = TNode 0 [TLeaf 2 (Some 10), TLeaf 3 (Some 11)]"


text \<open>
  A partial Q-node (address 0) with the leaves 2, 3, 4 and 5 from left to right, with
  the edges 10, 11, 12 and 13. The leaves 2 and 3 are full, the other two empty; the
  parameter is the list of full children of the Q-node, whose order the sources at hand
  do not fix.
\<close>

definition exQ4 :: "nat list \<Rightarrow> EmbedPQTree" where
  "exQ4 full = treeOf
     [(0, qNode Partial (Some 2) (Some 5) 4 full),
      (2, leafNode Full 10 (Some 0) None (Some 3)),
      (3, leafNode Full 11 None (Some 2) (Some 4)),
      (4, leafNode Empty 12 None (Some 3) (Some 5)),
      (5, leafNode Empty 13 (Some 0) (Some 4) None)]
     [2, 3] (Some 0) (Some 0) 6"
section \<open>Properties\<close>

subsection \<open>The client traversal never stops at an indicator\<close>









subsection \<open>\<open>getFront\<close> on a shape\<close>

lemma getFront_siblings_walk:
  "sibWalk t f old p ws \<Longrightarrow>
   getFront_siblings t f p old S keys =
     Some (t, rev (filter (\<lambda>w. \<not> isIndAt t w) ws) @ S,
           keys @ map NodeKey (filter (isIndAt t) ws))"
proof (induction ws arbitrary: old p S keys)
  case Nil
  then show ?case
    by (subst getFront_siblings.simps) auto
next
  case (Cons w ws)
  then obtain nd where nd: "heap t w = Some nd" and p: "p = Some w" and wf: "w \<noteq> f"
    and walk: "sibWalk t f w (getNextSib nd (Some old)) ws"
    by (auto split: option.splits)
  show ?case
  proof (cases "status nd = Indicator")
    case True
    then have "isIndAt t w" using nd by (simp add: isIndAt_def)
    then show ?thesis
      using True nd p wf Cons.IH[OF walk, of S "keys @ [NodeKey w]"]
      by (subst getFront_siblings.simps) simp
  next
    case False
    then have "\<not> isIndAt t w" using nd by (simp add: isIndAt_def)
    then show ?thesis
      using False nd p wf Cons.IH[OF walk, of "w # S" keys]
      by (subst getFront_siblings.simps) simp
  qed
qed

lemma wfT_isIndAt: "wfT t c \<Longrightarrow> isIndAt t (root c) = isInd c"
  by (cases c) (auto simp: isIndAt_def split: option.splits)

lemma wfT_filter_ind:
  "\<forall>c \<in> set cs. wfT t c \<Longrightarrow> filter (isIndAt t) (map root cs) = map root (filter isInd cs)"
  by (induction cs) (auto simp: wfT_isIndAt)

lemma wfT_filter_nonind:
  "\<forall>c \<in> set cs. wfT t c \<Longrightarrow>
   filter (\<lambda>w. \<not> isIndAt t w) (map root cs) = map root (filter (\<lambda>c. \<not> isInd c) cs)"
  by (induction cs) (auto simp: wfT_isIndAt)

lemma getFront_node_leaf:
  "wfT t (TLeaf a k) \<Longrightarrow> getFront_node t a S keys = Some (t, S, keys @ [LeafKey k])"
  by (auto simp: getFront_node_def split: option.splits)

lemma getFront_node_interior:
  assumes "wfT t (TNode a cs)"
  shows "getFront_node t a S keys =
     Some (t, map root (rev (filter (\<lambda>c. \<not> isInd c) cs)) @ S,
           keys @ map (\<lambda>c. NodeKey (root c)) (filter isInd cs))"
proof -
  from assms obtain nd c cs' fd where nd: "heap t a = Some nd" "nodeType nd \<noteq> Leaf"
    and cs: "cs = c # cs'" and fs: "firstSonOf nd = Some (root c)"
    and fd: "heap t (root c) = Some fd"
    and walk: "sibWalk t (root c) (root c) (getNextSib fd None) (map root cs')"
    and wfc: "\<forall>c \<in> set cs. wfT t c"
    by (auto split: option.splits list.splits)
  have c: "wfT t c" using wfc cs by simp
  have ind: "(status fd = Indicator) = isInd c"
    using wfT_isIndAt[OF c] fd by (simp add: isIndAt_def)
  have wfc': "\<forall>c \<in> set cs'. wfT t c" using wfc cs by simp
  show ?thesis
    using nd fs fd ind cs
    by (simp add: getFront_node_def firstSonOf_def getFront_siblings_walk[OF walk]
        wfT_filter_ind[OF wfc'] wfT_filter_nonind[OF wfc'] rev_map)
qed

lemma frontKeys_concat_nonind:
  "concat (rev (map frontKeys cs)) = concat (map frontKeys (rev (filter (\<lambda>c. \<not> isInd c) cs)))"
proof (induction cs)
  case Nil
  show ?case by simp
next
  case (Cons c cs)
  then show ?case by (cases c) auto
qed

lemma size_filter_le: "size_list size (filter P cs) \<le> size_list size (cs :: shape list)"
  by (induction cs) auto

lemma size_list_rev: "size_list f (rev xs) = size_list f xs"
  by (induction xs) auto

lemma getFront_loop_forest:
  "\<forall>c \<in> set ts. wfT t c \<and> \<not> isInd c \<Longrightarrow>
   getFront_loop t (map root ts) keys = Some (t, keys @ concat (map frontKeys ts))"
proof (induction "size_list size ts" arbitrary: ts keys rule: less_induct)
  case less
  show ?case
  proof (cases ts)
    case Nil
    then show ?thesis by (subst getFront_loop.simps) simp
  next
    case (Cons c rest)
    have rest: "\<forall>c \<in> set rest. wfT t c \<and> \<not> isInd c" using less.prems Cons by simp
    have c: "wfT t c" "\<not> isInd c" using less.prems Cons by simp_all
    show ?thesis
    proof (cases c)
      case (TLeaf a k)
      have "size_list size rest < size_list size ts"
        using Cons TLeaf by simp
      from less.hyps[OF this rest]
      have "getFront_loop t (map root rest) (keys @ [LeafKey k]) =
              Some (t, (keys @ [LeafKey k]) @ concat (map frontKeys rest))" .
      then show ?thesis
        using Cons TLeaf c getFront_node_leaf[of t a k "map root rest" keys]
        by (subst getFront_loop.simps) simp
    next
      case (TInd a)
      with c show ?thesis by simp
    next
      case (TNode a cs)
      let ?push = "rev (filter (\<lambda>c. \<not> isInd c) cs)"
      let ?ik = "map (\<lambda>c. NodeKey (root c)) (filter isInd cs)"
      have wfcs: "\<forall>c \<in> set cs. wfT t c" using c TNode by (auto split: option.splits)
      have forest: "\<forall>c \<in> set (?push @ rest). wfT t c \<and> \<not> isInd c"
        using wfcs rest by auto
      have "size_list size (?push @ rest) < size_list size ts"
        using Cons TNode size_filter_le[of "\<lambda>c. \<not> isInd c" cs] by (simp add: size_list_rev)
      from less.hyps[OF this forest]
      have "getFront_loop t (map root (?push @ rest)) (keys @ ?ik) =
              Some (t, (keys @ ?ik) @ concat (map frontKeys (?push @ rest)))" .
      then show ?thesis
        using Cons TNode c getFront_node_interior[of t a cs "map root rest" keys]
        by (subst getFront_loop.simps) (simp add: frontKeys_concat_nonind)
    qed
  qed
qed

lemma getFront_shape:
  "wfT t sh \<Longrightarrow> \<not> isInd sh \<Longrightarrow> getFront t (Some (root sh)) keys = Some (t, keys @ frontKeys sh)"
  using getFront_loop_forest[of "[sh]" t keys] by (simp add: getFront_def)

subsection \<open>\<open>front\<close> on a shape\<close>

lemma scanned_refl: "scanned t t []"
  by (simp add: scanned_def)

lemma scanned_trans:
  assumes "scanned t t1 vs1" "scanned t1 t2 vs2" "snd ` set vs1 \<inter> snd ` set vs2 = {}"
  shows "scanned t t2 (vs1 @ vs2)"
  unfolding scanned_def
proof (intro conjI allI impI ballI)
  fix a assume "a \<notin> snd ` set (vs1 @ vs2)"
  then have "a \<notin> snd ` set vs1" "a \<notin> snd ` set vs2" by auto
  then have "heap t2 a = heap t1 a" "heap t1 a = heap t a"
    using assms(1,2) by (simp_all add: scanned_def)
  then show "heap t2 a = heap t a" by simp
next
  fix x assume x: "x \<in> set (vs1 @ vs2)"
  obtain old i where xi: "x = (old, i)" by (cases x)
  show "case x of (old, i) \<Rightarrow> heap t2 i = map_option (visitNode old) (heap t i)"
  proof (cases "x \<in> set vs1")
    case True
    then have "i \<notin> snd ` set vs2" using assms(3) xi by force
    then have "heap t2 i = heap t1 i" using assms(2) by (simp add: scanned_def)
    then show ?thesis using True assms(1) xi by (auto simp: scanned_def)
  next
    case False
    then have in2: "x \<in> set vs2" using x by simp
    then have "i \<notin> snd ` set vs1" using assms(3) xi by force
    then have "heap t1 i = heap t i" using assms(1) by (simp add: scanned_def)
    then show ?thesis using in2 assms(2) xi by (auto simp: scanned_def)
  qed
qed (use assms in \<open>auto simp: scanned_def\<close>)

lemma sibWalk_cong:
  "\<forall>a \<in> set ws. heap t' a = heap t a \<Longrightarrow> sibWalk t' f old p ws = sibWalk t f old p ws"
  by (induction ws arbitrary: old p) (auto split: option.splits)

lemma wfT_cong:
  "\<forall>a \<in> set (addrs sh). heap t' a = heap t a \<Longrightarrow> wfT t' sh = wfT t sh"
proof (induction sh)
  case (TLeaf a k)
  then show ?case by simp
next
  case (TInd a)
  then show ?case by simp
next
  case (TNode a cs)
  have ch: "\<forall>c \<in> set cs. wfT t' c = wfT t c"
    using TNode by auto
  have a: "heap t' a = heap t a" using TNode.prems by simp
  show ?case
  proof (cases cs)
    case Nil
    then show ?thesis using a by (simp split: option.splits)
  next
    case (Cons c cs')
    have rc: "root c \<in> set (addrs c)" by (cases c) auto
    have c: "heap t' (root c) = heap t (root c)"
      using TNode.prems Cons rc by auto
    have "\<forall>x \<in> set cs'. root x \<in> set (addrs x)"
    proof
      fix x show "root x \<in> set (addrs x)" by (cases x) auto
    qed
    then have "\<forall>a \<in> set (map root cs'). heap t' a = heap t a"
      using TNode.prems Cons by auto
    from sibWalk_cong[OF this]
    show ?thesis using a c ch Cons by (simp split: option.splits)
  qed
qed

lemma root_in_addrs: "root x \<in> set (addrs x)"
  by (cases x) auto

lemma distinct_roots:
  "distinct (concat (map addrs cs)) \<Longrightarrow> distinct (map root cs)"
proof (induction cs)
  case Nil
  show ?case by simp
next
  case (Cons c cs)
  have "root c \<notin> root ` set cs"
  proof
    assume "root c \<in> root ` set cs"
    then obtain x where "x \<in> set cs" "root x = root c" by auto
    then have "root c \<in> set (addrs x)" using root_in_addrs[of x] by simp
    then show False using Cons.prems \<open>x \<in> set cs\<close> root_in_addrs[of c] by auto
  qed
  then show ?case using Cons by simp
qed

lemma sibVisits_subset: "snd ` set (sibVisits old cs) \<subseteq> root ` set (filter isInd cs)"
  by (induction cs arbitrary: old) auto

lemma childVisits_subset: "snd ` set (childVisits cs) \<subseteq> root ` set (filter isInd cs)"
proof (cases cs)
  case Nil
  then show ?thesis by simp
next
  case (Cons c cs')
  show ?thesis using sibVisits_subset[of "root c" cs'] Cons by auto
qed

lemma front_siblings_walk:
  assumes "sibWalk t f old p (map root cs)" "distinct (concat (map addrs cs))"
    "\<forall>c \<in> set cs. wfT t c"
  shows "\<exists>t'. front_siblings t f p old S keys =
            Some (t', map root (rev (filter (\<lambda>c. \<not> isInd c) cs)) @ S,
                  keys @ map (\<lambda>c. NodeKey (root c)) (filter isInd cs)) \<and>
          scanned t t' (sibVisits old cs)"
  using assms
proof (induction cs arbitrary: t old p S keys)
  case Nil
  then show ?case
    by (subst front_siblings.simps) (auto simp: scanned_refl)
next
  case (Cons c cs)
  let ?w = "root c"
  from Cons.prems(1) obtain nd where nd: "heap t ?w = Some nd" and p: "p = Some ?w"
    and wf: "?w \<noteq> f" and walk: "sibWalk t f ?w (getNextSib nd (Some old)) (map root cs)"
    by (auto split: option.splits)
  have c: "wfT t c" using Cons.prems(3) by simp
  have dist: "distinct (concat (map addrs cs))"
    using Cons.prems(2) by simp
  have notin': "\<forall>x \<in> set cs. ?w \<notin> set (addrs x)"
    using Cons.prems(2) root_in_addrs[of c] by auto
  have notin: "?w \<notin> set (map root cs)"
    using notin' root_in_addrs by fastforce
  show ?case
  proof (cases "isInd c")
    case False
    then have st: "status nd \<noteq> Indicator"
      using wfT_isIndAt[OF c] nd by (simp add: isIndAt_def)
    from Cons.IH[OF walk dist, of "?w # S" keys] Cons.prems(3)
    obtain t' where "front_siblings t f (getNextSib nd (Some old)) ?w (?w # S) keys =
            Some (t', map root (rev (filter (\<lambda>c. \<not> isInd c) cs)) @ ?w # S,
                  keys @ map (\<lambda>c. NodeKey (root c)) (filter isInd cs))"
      and "scanned t t' (sibVisits ?w cs)" by auto
    then show ?thesis
      using False st nd p wf by (subst front_siblings.simps) simp
  next
    case True
    then have st: "status nd = Indicator"
      using wfT_isIndAt[OF c] nd by (simp add: isIndAt_def)
    from True c nd obtain info where info: "getNodeInfo nd = Some info"
      by (cases c) auto
    define t0 where "t0 = (if Some old = getSib nd Left
        then t\<lparr>heap := (heap t)(?w \<mapsto> nd\<lparr>getNodeInfo := Some (info\<lparr>changeDir := True\<rparr>)\<rparr>)\<rparr> else t)"
    define t1 where "t1 = pushPertinent ?w t0"
    have step: "(if Some old = getSib nd Left then setChangeDir ?w t else Some t) = Some t0"
      using nd info by (simp add: t0_def setChangeDir_def)
    have sc1: "scanned t t1 [(Some old, ?w)]"
      using nd info
      by (auto simp: scanned_def t1_def t0_def pushPertinent_def visitNode_def getSib_def)
    have agree: "\<forall>a \<in> set (map root cs). heap t1 a = heap t a"
      using notin by (auto simp: t1_def t0_def pushPertinent_def image_iff)
    have walk1: "sibWalk t1 f ?w (getNextSib nd (Some old)) (map root cs)"
      using walk sibWalk_cong[OF agree] by simp
    have wf1: "\<forall>c \<in> set cs. wfT t1 c"
    proof
      fix x assume x: "x \<in> set cs"
      have "?w \<notin> set (addrs x)" using notin' x by simp
      then have "\<forall>a \<in> set (addrs x). heap t1 a = heap t a"
        by (auto simp: t1_def t0_def pushPertinent_def)
      from wfT_cong[OF this] show "wfT t1 x" using Cons.prems(3) x by simp
    qed
    from Cons.IH[OF walk1 dist wf1, of S "keys @ [NodeKey ?w]"]
    obtain t' where run: "front_siblings t1 f (getNextSib nd (Some old)) ?w S (keys @ [NodeKey ?w]) =
            Some (t', map root (rev (filter (\<lambda>c. \<not> isInd c) cs)) @ S,
                  (keys @ [NodeKey ?w]) @ map (\<lambda>c. NodeKey (root c)) (filter isInd cs))"
      and sc2: "scanned t1 t' (sibVisits ?w cs)" by auto
    have "snd ` set (sibVisits ?w cs) \<subseteq> set (map root cs)"
      using sibVisits_subset[of ?w cs] by auto
    then have "snd ` set [(Some old, ?w)] \<inter> snd ` set (sibVisits ?w cs) = {}"
      using notin by auto
    from scanned_trans[OF sc1 sc2 this]
    have "scanned t t' (sibVisits old (c # cs))" using True by simp
    then show ?thesis
      using True st nd p wf step run unfolding t1_def
      by (subst front_siblings.simps) simp
  qed
qed

lemma disjoint_addrs:
  "distinct (concat (map addrs cs)) \<Longrightarrow> x \<in> set cs \<Longrightarrow> y \<in> set cs \<Longrightarrow> x \<noteq> y \<Longrightarrow>
   set (addrs x) \<inter> set (addrs y) = {}"
  by (induction cs) auto

lemma distinct_concat_filter:
  "distinct (concat (map addrs cs)) \<Longrightarrow> distinct (concat (map addrs (filter P cs)))"
  by (induction cs) auto

lemma set_concat_rev: "set (concat (map f (rev xs))) = set (concat (map f xs))"
  by (induction xs) auto

lemma distinct_addrs_rev:
  "distinct (concat (map addrs (rev cs))) = distinct (concat (map addrs cs))"
  by (induction cs) (auto simp: set_concat_rev)

lemma visits_subset: "snd ` set (visits sh) \<subseteq> set (addrs sh)"
proof (induction sh)
  case (TNode a cs)
  have "snd ` set (childVisits cs) \<subseteq> (\<Union>c \<in> set cs. set (addrs c))"
    using childVisits_subset[of cs] root_in_addrs by fastforce
  moreover have "snd ` set (concat (rev (map visits cs))) \<subseteq> (\<Union>c \<in> set cs. set (addrs c))"
    using TNode by fastforce
  ultimately have "snd ` set (childVisits cs @ concat (rev (map visits cs)))
      \<subseteq> (\<Union>c \<in> set cs. set (addrs c))"
    by (simp add: image_Un)
  then show ?case by auto
qed simp_all

lemma visits_concat_nonind:
  "concat (rev (map visits cs)) = concat (map visits (rev (filter (\<lambda>c. \<not> isInd c) cs)))"
proof (induction cs)
  case Nil
  show ?case by simp
next
  case (Cons c cs)
  then show ?case by (cases c) auto
qed

lemma front_node_leaf:
  "wfT t (TLeaf a k) \<Longrightarrow> front_node t a S keys = Some (t, S, keys @ [LeafKey k])"
  by (auto simp: front_node_def split: option.splits)

lemma front_node_interior:
  assumes wf: "wfT t (TNode a cs)" and dist: "distinct (concat (map addrs cs))"
  shows "\<exists>t'. front_node t a S keys =
            Some (t', map root (rev (filter (\<lambda>c. \<not> isInd c) cs)) @ S,
                  keys @ map (\<lambda>c. NodeKey (root c)) (filter isInd cs)) \<and>
          scanned t t' (childVisits cs)"
proof -
  from wf obtain nd c cs' fd where nd: "heap t a = Some nd" "nodeType nd \<noteq> Leaf"
    and cs: "cs = c # cs'" and fs: "firstSonOf nd = Some (root c)"
    and fd: "heap t (root c) = Some fd"
    and walk: "sibWalk t (root c) (root c) (getNextSib fd None) (map root cs')"
    and wfc: "\<forall>c \<in> set cs. wfT t c"
    by (auto split: option.splits list.splits)
  let ?f = "root c"
  have c: "wfT t c" using wfc cs by simp
  have ind: "(status fd = Indicator) = isInd c"
    using wfT_isIndAt[OF c] fd by (simp add: isIndAt_def)
  have wfc': "\<forall>c \<in> set cs'. wfT t c" using wfc cs by simp
  have dist': "distinct (concat (map addrs cs'))" using dist cs by simp
  have notin': "\<forall>x \<in> set cs'. ?f \<notin> set (addrs x)"
    using dist cs root_in_addrs[of c] by auto
  have first: "(if nodeType nd = PNode then m_referenceChild nd
                else if nodeType nd = QNode then getEndmost nd Right else None) = Some ?f"
    using fs nd(2) by (cases "nodeType nd") (auto simp: firstSonOf_def)
  show ?thesis
  proof (cases "isInd c")
    case False
    from front_siblings_walk[OF walk dist' wfc', of "?f # S" keys]
    obtain t' where "front_siblings t ?f (getNextSib fd None) ?f (?f # S) keys =
            Some (t', map root (rev (filter (\<lambda>c. \<not> isInd c) cs')) @ ?f # S,
                  keys @ map (\<lambda>c. NodeKey (root c)) (filter isInd cs'))"
      and "scanned t t' (sibVisits ?f cs')" by auto
    then show ?thesis
      using False nd first fd ind cs by (simp add: front_node_def)
  next
    case True
    define t1 where "t1 = (pushPertinent ?f t)\<lparr>heap := (heap t)(?f \<mapsto> fd\<lparr>status := ToBeDeleted\<rparr>)\<rparr>"
    have d: "destroyNode ?f (pushPertinent ?f t) = Some t1"
      using fd by (simp add: destroyNode_def pushPertinent_def t1_def)
    have sc1: "scanned t t1 [(None, ?f)]"
      using fd by (auto simp: scanned_def t1_def pushPertinent_def visitNode_def)
    have agree: "\<forall>x \<in> set cs'. \<forall>a \<in> set (addrs x). heap t1 a = heap t a"
      using notin' by (auto simp: t1_def pushPertinent_def)
    have "\<forall>a \<in> set (map root cs'). heap t1 a = heap t a"
      using agree root_in_addrs by auto
    from sibWalk_cong[OF this]
    have walk1: "sibWalk t1 ?f ?f (getNextSib fd None) (map root cs')" using walk by simp
    have wf1: "\<forall>c \<in> set cs'. wfT t1 c"
      using wfc' agree wfT_cong by blast
    from front_siblings_walk[OF walk1 dist' wf1, of S "keys @ [NodeKey ?f]"]
    obtain t' where run: "front_siblings t1 ?f (getNextSib fd None) ?f S (keys @ [NodeKey ?f]) =
            Some (t', map root (rev (filter (\<lambda>c. \<not> isInd c) cs')) @ S,
                  (keys @ [NodeKey ?f]) @ map (\<lambda>c. NodeKey (root c)) (filter isInd cs'))"
      and sc2: "scanned t1 t' (sibVisits ?f cs')" by auto
    have "snd ` set (sibVisits ?f cs') \<subseteq> root ` set cs'"
      using sibVisits_subset[of ?f cs'] by auto
    moreover have "?f \<notin> root ` set cs'" using notin' root_in_addrs by fastforce
    ultimately have "snd ` set [(None, ?f)] \<inter> snd ` set (sibVisits ?f cs') = {}"
      by auto
    from scanned_trans[OF sc1 sc2 this]
    have "scanned t t' (childVisits cs)" using True cs by simp
    then show ?thesis
      using True nd first fd ind cs d run by (simp add: front_node_def)
  qed
qed

lemma ind_roots_disjoint:
  assumes d: "distinct (concat (map addrs (TNode a cs # rest)))"
    and x: "x \<in> set (rev (filter (\<lambda>c. \<not> isInd c) cs) @ rest)"
    and b: "b \<in> set (addrs x)"
  shows "b \<notin> root ` set (filter isInd cs)"
proof
  assume "b \<in> root ` set (filter isInd cs)"
  then obtain i where i: "i \<in> set cs" "isInd i" "b = root i" by auto
  then have bi: "b \<in> set (addrs i)" using root_in_addrs by simp
  have dcs: "distinct (concat (map addrs cs))" using d by simp
  show False
  proof (cases "x \<in> set rest")
    case True
    have "set (concat (map addrs cs)) \<inter> set (concat (map addrs rest)) = {}"
      using d by simp
    moreover have "b \<in> set (concat (map addrs cs))" using bi i(1) by auto
    moreover have "b \<in> set (concat (map addrs rest))" using b True by auto
    ultimately show ?thesis by blast
  next
    case False
    then have "x \<in> set cs" "\<not> isInd x" using x by auto
    then have "x \<noteq> i" using i(2) by auto
    from disjoint_addrs[OF dcs \<open>x \<in> set cs\<close> i(1) this] show ?thesis using b bi by auto
  qed
qed

lemma visits_forest_subset:
  "b \<in> snd ` set (concat (map visits ts)) \<Longrightarrow> \<exists>x \<in> set ts. b \<in> set (addrs x)"
proof (induction ts)
  case Nil
  then show ?case by simp
next
  case (Cons c ts)
  then have "b \<in> snd ` set (visits c) \<or> b \<in> snd ` set (concat (map visits ts))"
    by (auto simp: image_Un)
  then show ?case
  proof
    assume "b \<in> snd ` set (visits c)"
    then have "b \<in> set (addrs c)" using visits_subset[of c] by blast
    then show ?thesis by simp
  next
    assume "b \<in> snd ` set (concat (map visits ts))"
    from Cons.IH[OF this] show ?thesis by auto
  qed
qed

lemma front_loop_forest:
  "\<forall>c \<in> set ts. wfT t c \<and> \<not> isInd c \<Longrightarrow> distinct (concat (map addrs ts)) \<Longrightarrow>
   \<exists>t'. front_loop t (map root ts) keys = Some (t', keys @ concat (map frontKeys ts)) \<and>
        scanned t t' (concat (map visits ts))"
proof (induction "size_list size ts" arbitrary: ts t keys rule: less_induct)
  case less
  show ?case
  proof (cases ts)
    case Nil
    then show ?thesis by (subst front_loop.simps) (simp add: scanned_refl)
  next
    case (Cons c rest)
    have rest: "\<forall>c \<in> set rest. wfT t c \<and> \<not> isInd c" using less.prems Cons by simp
    have drest: "distinct (concat (map addrs rest))" using less.prems Cons by simp
    have c: "wfT t c" "\<not> isInd c" using less.prems Cons by simp_all
    show ?thesis
    proof (cases c)
      case (TLeaf a k)
      have "size_list size rest < size_list size ts"
        using Cons TLeaf by simp
      from less.hyps[OF this rest drest, of "keys @ [LeafKey k]"]
      obtain t' where "front_loop t (map root rest) (keys @ [LeafKey k]) =
              Some (t', (keys @ [LeafKey k]) @ concat (map frontKeys rest))"
        and "scanned t t' (concat (map visits rest))" by auto
      then show ?thesis
        using Cons TLeaf c front_node_leaf[of t a k "map root rest" keys]
        by (subst front_loop.simps) simp
    next
      case (TInd a)
      with c show ?thesis by simp
    next
      case (TNode a cs)
      let ?push = "rev (filter (\<lambda>c. \<not> isInd c) cs)"
      let ?ik = "map (\<lambda>c. NodeKey (root c)) (filter isInd cs)"
      have wfcs: "\<forall>c \<in> set cs. wfT t c" using c TNode by (auto split: option.splits)
      have dall: "distinct (concat (map addrs (TNode a cs # rest)))"
        using less.prems(2) Cons TNode by simp
      have dcs: "distinct (concat (map addrs cs))" using dall by simp
      from front_node_interior[OF c(1)[unfolded TNode] dcs, of "map root rest" keys]
      obtain t1 where node: "front_node t a (map root rest) keys =
            Some (t1, map root ?push @ map root rest, keys @ ?ik)"
        and sc1: "scanned t t1 (childVisits cs)" by auto
      have inds: "snd ` set (childVisits cs) \<subseteq> root ` set (filter isInd cs)"
        by (rule childVisits_subset)
      have agree: "\<forall>x \<in> set (?push @ rest). \<forall>b \<in> set (addrs x). heap t1 b = heap t b"
      proof (intro ballI)
        fix x b assume x: "x \<in> set (?push @ rest)" and b: "b \<in> set (addrs x)"
        from ind_roots_disjoint[OF dall x b]
        have "b \<notin> snd ` set (childVisits cs)" using inds by blast
        then show "heap t1 b = heap t b" using sc1 by (simp add: scanned_def)
      qed
      have forest: "\<forall>c \<in> set (?push @ rest). wfT t1 c \<and> \<not> isInd c"
      proof
        fix x assume x: "x \<in> set (?push @ rest)"
        then have "wfT t x" "\<not> isInd x" using wfcs rest by auto
        moreover have "wfT t1 x = wfT t x" using agree x wfT_cong by blast
        ultimately show "wfT t1 x \<and> \<not> isInd x" by simp
      qed
      have dforest: "distinct (concat (map addrs (?push @ rest)))"
        using dall distinct_concat_filter[OF dcs, of "\<lambda>c. \<not> isInd c"]
        by (auto simp: distinct_addrs_rev set_concat_rev)
      have "size_list size (?push @ rest) < size_list size ts"
        using Cons TNode size_filter_le[of "\<lambda>c. \<not> isInd c" cs] by (simp add: size_list_rev)
      from less.hyps[OF this forest dforest, of "keys @ ?ik"]
      obtain t' where run: "front_loop t1 (map root (?push @ rest)) (keys @ ?ik) =
              Some (t', (keys @ ?ik) @ concat (map frontKeys (?push @ rest)))"
        and sc2: "scanned t1 t' (concat (map visits (?push @ rest)))" by auto
      have "snd ` set (childVisits cs) \<inter> snd ` set (concat (map visits (?push @ rest))) = {}"
      proof (rule ccontr)
        assume "snd ` set (childVisits cs) \<inter> snd ` set (concat (map visits (?push @ rest))) \<noteq> {}"
        then obtain b where b1: "b \<in> snd ` set (childVisits cs)"
          and b2: "b \<in> snd ` set (concat (map visits (?push @ rest)))" by blast
        from visits_forest_subset[OF b2] obtain x where x: "x \<in> set (?push @ rest)"
          and bx: "b \<in> set (addrs x)" by blast
        from ind_roots_disjoint[OF dall x bx] b1 inds show False by blast
      qed
      from scanned_trans[OF sc1 sc2 this]
      have sc: "scanned t t' (concat (map visits ts))"
        using Cons TNode by (simp add: visits_concat_nonind)
      have "concat (map frontKeys ts) = ?ik @ concat (map frontKeys (?push @ rest))"
        using Cons TNode by (simp add: frontKeys_concat_nonind)
      then show ?thesis
        using Cons TNode node run sc
        by (subst front_loop.simps) simp
    qed
  qed
qed

lemma front_shape:
  assumes "wfT t sh" "\<not> isInd sh" "distinct (addrs sh)"
  shows "\<exists>t'. front t (Some (root sh)) keys = Some (t', keys @ frontKeys sh) \<and>
              scanned t t' (visits sh)"
  using front_loop_forest[of "[sh]" t keys] assms by (simp add: front_def)

subsection \<open>\<open>getFront\<close> writes nothing\<close>

lemma getFront_siblings_unchanged:
  assumes "getFront_siblings t f p old S keys = Some r"
  shows "fst r = t"
proof (rule getFront_siblings.raw_induct
    [where P = "\<lambda>t f p old S keys r. fst r = t", OF _ assms], goal_cases)
  case (1 loop t f p old S keys r)
  show ?case
  proof (cases p)
    case None
    with 1(2) show ?thesis by auto
  next
    case (Some n)
    show ?thesis
    proof (cases "n = f")
      case True
      with Some 1(2) show ?thesis by auto
    next
      case False
      show ?thesis
      proof (cases "heap t n")
        case None
        with Some False 1(2) show ?thesis by simp
      next
        case (Some nd)
        show ?thesis
        proof (cases "status nd = Indicator")
          case True
          with \<open>p = Some n\<close> False Some 1(2)
          have "loop t f (getNextSib nd (Some old)) n S (keys @ [NodeKey n]) = Some r" by simp
          then show ?thesis by (rule 1(1))
        next
          case False
          with \<open>p = Some n\<close> \<open>n \<noteq> f\<close> Some 1(2)
          have "loop t f (getNextSib nd (Some old)) n (n # S) keys = Some r" by simp
          then show ?thesis by (rule 1(1))
        qed
      qed
    qed
  qed
qed

lemma getFront_node_unchanged:
  "getFront_node t c S keys = Some r \<Longrightarrow> fst r = t"
  by (auto simp: getFront_node_def split: option.splits if_splits
      dest: getFront_siblings_unchanged)

lemma getFront_loop_unchanged:
  assumes "getFront_loop t S keys = Some r"
  shows "fst r = t"
proof (rule getFront_loop.raw_induct
    [where P = "\<lambda>t S keys r. fst r = t", OF _ assms], goal_cases)
  case (1 loop t S keys r)
  show ?case
  proof (cases S)
    case Nil
    with 1(2) show ?thesis by auto
  next
    case (Cons c S')
    with 1(2) obtain t' S'' keys' where n: "getFront_node t c S' keys = Some (t', S'', keys')"
      and l: "loop t' S'' keys' = Some r"
      by (auto split: option.splits)
    from getFront_node_unchanged[OF n] have "t' = t" by simp
    with 1(1)[OF l] show ?thesis by simp
  qed
qed

lemma getFront_unchanged: "getFront t p keys = Some (t', ks) \<Longrightarrow> t' = t"
  by (auto simp: getFront_def split: option.splits dest: getFront_loop_unchanged)

subsection \<open>The frame of \<open>front\<close>\<close>

lemma sameButFlags_refl: "sameButFlags nd nd"
  by (simp add: sameButFlags_def)







lemma nodeKeys_append: "nodeKeys (xs @ ys) = nodeKeys xs @ nodeKeys ys"
  by (induction xs rule: nodeKeys.induct) auto




subsection \<open>The entries of a frontier\<close>

lemma nodeKeys_map_NodeKey: "nodeKeys (map (\<lambda>c. NodeKey (f c)) cs) = map f cs"
  by (induction cs) auto

lemma leafKeysOf_map_NodeKey: "leafKeysOf (map (\<lambda>c. NodeKey (f c)) cs) = []"
  by (induction cs) auto

lemma leafKeysOf_append: "leafKeysOf (xs @ ys) = leafKeysOf xs @ leafKeysOf ys"
  by (induction xs rule: leafKeysOf.induct) auto

lemma nodeKeys_concat: "nodeKeys (concat xss) = concat (map nodeKeys xss)"
  by (induction xss) (auto simp: nodeKeys_append)

lemma leafKeysOf_concat: "leafKeysOf (concat xss) = concat (map leafKeysOf xss)"
  by (induction xss) (auto simp: leafKeysOf_append)

lemma map_snd_sibVisits: "map snd (sibVisits old cs) = map root (filter isInd cs)"
  by (induction cs arbitrary: old) auto

lemma map_snd_childVisits: "map snd (childVisits cs) = map root (filter isInd cs)"
  by (cases cs) (auto simp: map_snd_sibVisits)

lemma nodeKeys_frontKeys: "nodeKeys (frontKeys sh) = map snd (visits sh)"
proof (induction sh)
  case (TNode a cs)
  have "map (nodeKeys \<circ> frontKeys) cs = map (map snd \<circ> visits) cs"
    using TNode by (simp cong: map_cong)
  then have "concat (rev (map (nodeKeys \<circ> frontKeys) cs)) =
             concat (rev (map (map snd \<circ> visits) cs))" by (simp only:)
  then show ?case
    by (simp add: nodeKeys_append nodeKeys_concat nodeKeys_map_NodeKey map_snd_childVisits
        rev_map map_concat)
qed simp_all

lemma leafKeysOf_frontKeys: "leafKeysOf (frontKeys sh) = leaves sh"
proof (induction sh)
  case (TNode a cs)
  have "map (leafKeysOf \<circ> frontKeys) cs = map leaves cs"
    using TNode by (simp cong: map_cong)
  then have "concat (rev (map (leafKeysOf \<circ> frontKeys) cs)) = concat (rev (map leaves cs))"
    by (simp only:)
  then show ?case
    by (simp add: leafKeysOf_append leafKeysOf_concat leafKeysOf_map_NodeKey rev_map)
qed simp_all

lemma scanNodeFrontier_result:
  "scanNodeFrontier t nf (fr, op, nop) = Some (fr', op', nop') \<Longrightarrow>
   map Some fr' = map Some fr @ leafKeysOf nf \<and>
   op' = op @ map (vertexAt t) (filter (changeDirAt t) (nodeKeys nf)) \<and>
   nop' = nop @ map (vertexAt t) (filter (\<lambda>i. \<not> changeDirAt t i) (nodeKeys nf))"
proof (induction nf arbitrary: fr op nop)
  case Nil
  then show ?case by simp
next
  case (Cons x nf)
  show ?case
  proof (cases x)
    case (LeafKey k)
    with Cons.prems obtain e where e: "k = Some e"
      and r: "scanNodeFrontier t nf (fr @ [e], op, nop) = Some (fr', op', nop')"
      by (auto split: option.splits)
    from Cons.IH[OF r] show ?thesis using LeafKey e by simp
  next
    case (NodeKey i)
    with Cons.prems obtain nd info where nd: "heap t i = Some nd" "getNodeInfo nd = Some info"
      by (auto split: option.splits)
    have v: "vertexAt t i = associatedNode info" "changeDirAt t i = changeDir info"
      using nd by (simp_all add: vertexAt_def changeDirAt_def infoAt_def)
    show ?thesis
    proof (cases "changeDir info")
      case True
      with Cons.prems NodeKey nd
      have "scanNodeFrontier t nf (fr, op @ [associatedNode info], nop) = Some (fr', op', nop')"
        by simp
      from Cons.IH[OF this] show ?thesis using NodeKey v True by simp
    next
      case False
      with Cons.prems NodeKey nd
      have "scanNodeFrontier t nf (fr, op, nop @ [associatedNode info]) = Some (fr', op', nop')"
        by simp
      from Cons.IH[OF this] show ?thesis using NodeKey v False by simp
    qed
  qed
qed

lemma scanNodeFrontier_total:
  "\<forall>k \<in> set (leafKeysOf nf). k \<noteq> None \<Longrightarrow> \<forall>i \<in> set (nodeKeys nf). infoAt t i \<noteq> None \<Longrightarrow>
   \<exists>r. scanNodeFrontier t nf acc = Some r"
proof (induction nf arbitrary: acc)
  case Nil
  obtain fr op nop where "acc = (fr, op, nop)" using prod_cases3 by blast
  then show ?case by simp
next
  case (Cons x nf)
  obtain fr op nop where acc: "acc = (fr, op, nop)" using prod_cases3 by blast
  show ?case
  proof (cases x)
    case (LeafKey k)
    with Cons.prems obtain e where "k = Some e" by auto
    with Cons LeafKey acc show ?thesis by simp
  next
    case (NodeKey i)
    with Cons.prems obtain nd info where "heap t i = Some nd" "getNodeInfo nd = Some info"
      by (auto simp: infoAt_def split: option.splits)
    with Cons NodeKey acc show ?thesis by simp
  qed
qed


lemma scanned_infoAt:
  assumes "scanned t t' vs"
  shows "(infoAt t' i = None) = (infoAt t i = None)"
proof (cases "i \<in> snd ` set vs")
  case False
  with assms show ?thesis by (simp add: scanned_def infoAt_def)
next
  case True
  then obtain old where "(old, i) \<in> set vs" by auto
  with assms have "heap t' i = map_option (visitNode old) (heap t i)"
    by (auto simp: scanned_def)
  then show ?thesis
    by (auto simp: infoAt_def visitNode_def split: option.splits)
qed

lemma wfT_info:
  "wfT t sh \<Longrightarrow> (old, i) \<in> set (visits sh) \<Longrightarrow> infoAt t i \<noteq> None \<and> isIndAt t i"
proof (induction sh)
  case (TNode a cs)
  from TNode.prems(1) have wfc: "\<forall>c \<in> set cs. wfT t c" by (auto split: option.splits)
  from TNode.prems(2) have "(old, i) \<in> set (childVisits cs) \<or> (\<exists>c \<in> set cs. (old, i) \<in> set (visits c))"
    by auto
  then show ?case
  proof
    assume "(old, i) \<in> set (childVisits cs)"
    then have "i \<in> snd ` set (childVisits cs)" by force
    then obtain c where c: "c \<in> set cs" "isInd c" "i = root c"
      using childVisits_subset[of cs] by auto
    then have "wfT t c" using wfc by simp
    with c(2,3) show ?thesis by (cases c) (auto simp: infoAt_def isIndAt_def split: option.splits)
  next
    assume "\<exists>c \<in> set cs. (old, i) \<in> set (visits c)"
    then show ?thesis using TNode.IH wfc by blast
  qed
qed simp_all

subsection \<open>New leaves under a P-node\<close>

lemma addNewLeaves_leaf:
  assumes "heap t f = Some fnd" "i < length ks" "f < m_identificationNumber t"
  shows "heap (addNewLeavesToTree f ks t) (m_identificationNumber t + i) =
           Some (newLeafAt (nodeType fnd) f (m_identificationNumber t) ks i)"
  using assms by (auto simp: addNewLeavesToTree_def)

lemma addNewLeaves_father:
  assumes "heap t f = Some fnd" "ks \<noteq> []" "f < m_identificationNumber t" "nodeType fnd = PNode"
  shows "heap (addNewLeavesToTree f ks t) f =
           Some (fnd\<lparr>m_childCount := m_childCount fnd + int (length ks),
                     m_referenceChild := Some (m_identificationNumber t)\<rparr>)"
  using assms by (auto simp: addNewLeavesToTree_def)

lemma addNewLeaves_other:
  assumes "a < m_identificationNumber t" "a \<noteq> f"
  shows "heap (addNewLeavesToTree f ks t) a = heap t a"
  using assms by (auto simp: addNewLeavesToTree_def split: option.splits)

lemma addNewLeaves_members:
  "m_root (addNewLeavesToTree f ks t) = m_root t"
  "m_pertinentRoot (addNewLeavesToTree f ks t) = m_pertinentRoot t"
  "m_pertinentNodes (addNewLeavesToTree f ks t) = m_pertinentNodes t"
  by (auto simp: addNewLeavesToTree_def split: option.splits)

lemma newLeafAt_P:
  "nodeType (newLeafAt PNode f b ks i) = Leaf"
  "status (newLeafAt PNode f b ks i) = Empty"
  "getKey (newLeafAt PNode f b ks i) = Some (ks ! i)"
  "m_parent (newLeafAt PNode f b ks i) = Some f"
  "m_sibLeft (newLeafAt PNode f b ks i) = Some (b + (i + length ks - 1) mod length ks)"
  "m_sibRight (newLeafAt PNode f b ks i) = Some (b + (i + 1) mod length ks)"
  by (simp_all add: newLeafAt_def newPQLeaf_def emptyPQNode_def)

lemma ring_walk:
  assumes leaf: "\<And>i. i < n \<Longrightarrow> heap t (b + i) = Some (newLeafAt PNode f b ks i)"
    and n: "length ks = n"
  shows "1 \<le> j \<Longrightarrow> j < n \<Longrightarrow>
         sibWalk t b (b + (j + 1) mod n) (Some (b + j)) (map (\<lambda>i. b + i) (rev [1..<Suc j]))"
proof (induction j)
  case 0
  then show ?case by simp
next
  case (Suc j)
  have l: "heap t (b + Suc j) = Some (newLeafAt PNode f b ks (Suc j))"
    using leaf[of "Suc j"] Suc.prems by simp
  have left: "m_sibLeft (newLeafAt PNode f b ks (Suc j)) = Some (b + j)"
    using Suc.prems n by (simp add: newLeafAt_P)
  have right: "m_sibRight (newLeafAt PNode f b ks (Suc j)) = Some (b + (Suc j + 1) mod n)"
    using n by (simp add: newLeafAt_P)
  show ?case
  proof (cases "j = 0")
    case True
    show ?thesis
    proof (cases "n = 2")
      case True
      with \<open>j = 0\<close> l left right show ?thesis by (simp add: getNextSib_def)
    next
      case False
      with \<open>j = 0\<close> Suc.prems have "(Suc j + 1) mod n = 2" by simp
      with \<open>j = 0\<close> l left right show ?thesis by (simp add: getNextSib_def)
    qed
  next
    case False
    then have j: "1 \<le> j" "j < n" using Suc.prems by simp_all
    have ne: "b + j \<noteq> b + (Suc j + 1) mod n"
    proof (cases "Suc j + 1 < n")
      case True
      then show ?thesis by simp
    next
      case False
      with Suc.prems have "Suc j + 1 = n" by simp
      then have "(Suc j + 1) mod n = 0" by simp
      with j show ?thesis by simp
    qed
    have next_: "getNextSib (newLeafAt PNode f b ks (Suc j)) (Some (b + (Suc j + 1) mod n)) =
      Some (b + j)"
      using left ne by (simp add: getNextSib_def)
    have old: "b + Suc j = b + (j + 1) mod n" using Suc.prems by simp
    from Suc.IH[OF j] have "sibWalk t b (b + Suc j) (Some (b + j)) (map (\<lambda>i. b + i) (rev [1..<Suc j]))"
      using old by simp
    with l next_ show ?thesis by simp
  qed
qed

lemma ring_first:
  assumes leaf: "\<And>i. i < n \<Longrightarrow> heap t (b + i) = Some (newLeafAt PNode f b ks i)"
    and n: "length ks = n" "0 < n"
  shows "sibWalk t b b (getNextSib (newLeafAt PNode f b ks 0) None)
           (map (\<lambda>i. b + i) (rev [1..<n]))"
proof (cases "n = 1")
  case True
  with n show ?thesis by (simp add: getNextSib_def newLeafAt_P)
next
  case False
  with n have n2: "1 \<le> n - 1" "n - 1 < n" by simp_all
  have first: "getNextSib (newLeafAt PNode f b ks 0) None = Some (b + (n - 1))"
    using n n2 by (simp add: getNextSib_def newLeafAt_P)
  have "(n - 1 + 1) mod n = 0" using n2 by simp
  with ring_walk[OF leaf n(1) n2] have
    "sibWalk t b b (Some (b + (n - 1))) (map (\<lambda>i. b + i) (rev [1..<Suc (n - 1)]))"
    by simp
  with first n2 show ?thesis by simp
qed

lemma addNewLeaves_wf:
  assumes f: "heap t f = Some fnd" "nodeType fnd = PNode" "status fnd \<noteq> Indicator"
    and ks: "ks \<noteq> []" and below: "f < m_identificationNumber t"
  shows "wfT (addNewLeavesToTree f ks t) (TNode f (ringShape (m_identificationNumber t) ks))"
proof -
  let ?t = "addNewLeavesToTree f ks t"
  let ?b = "m_identificationNumber t"
  have leaf: "\<And>i. i < length ks \<Longrightarrow> heap ?t (?b + i) = Some (newLeafAt PNode f ?b ks i)"
    using addNewLeaves_leaf[OF f(1) _ below] f(2) by simp
  have l0: "heap ?t ?b = Some (newLeafAt PNode f ?b ks 0)"
    using leaf[of 0] ks by simp
  have fa: "heap ?t f = Some (fnd\<lparr>m_childCount := m_childCount fnd + int (length ks),
                     m_referenceChild := Some ?b\<rparr>)"
    by (rule addNewLeaves_father[OF f(1) ks below f(2)])
  have walk: "sibWalk ?t ?b ?b (getNextSib (newLeafAt PNode f ?b ks 0) None)
           (map (\<lambda>i. ?b + i) (rev [1..<length ks]))"
    using ring_first[of "length ks" ?t ?b f ks] leaf ks by simp
  have kids: "\<forall>c \<in> set (ringShape ?b ks). wfT ?t c"
  proof
    fix c assume "c \<in> set (ringShape ?b ks)"
    then consider "c = TLeaf ?b (Some (ks ! 0))"
      | i where "1 \<le> i" "i < length ks" "c = TLeaf (?b + i) (Some (ks ! i))"
      by (auto simp: ringShape_def)
    then show "wfT ?t c"
    proof cases
      case 1
      then show ?thesis using l0 by (simp add: newLeafAt_P)
    next
      case 2
      then show ?thesis using leaf[of i] by (simp add: newLeafAt_P)
    qed
  qed
  show ?thesis
    using fa f(2,3) l0 walk kids
    by (simp add: ringShape_def firstSonOf_def comp_def)
qed

lemma ringShape_facts:
  assumes "ks \<noteq> []"
  shows "concat (rev (map frontKeys (ringShape b ks))) = map (\<lambda>k. LeafKey (Some k)) (rotate1 ks)"
    and "concat (rev (map leaves (ringShape b ks))) = map Some (rotate1 ks)"
    and "filter isInd (ringShape b ks) = []"
    and "length (ringShape b ks) = length ks"
proof -
  obtain k ks' where ks: "ks = k # ks'" using assms by (cases ks) auto
  have nth: "map (\<lambda>i. (k # ks') ! i) [1..<Suc (length ks')] = ks'"
  proof -
    have "map (\<lambda>i. (k # ks') ! i) [Suc 0..<Suc (length ks')] = map (\<lambda>i. ks' ! i) [0..<length ks']"
      by (simp add: map_Suc_upt[symmetric] del: upt_Suc)
    then show ?thesis by (simp add: map_nth)
  qed
  have a: "concat (rev (map frontKeys (ringShape b ks))) =
        map (\<lambda>i. LeafKey (Some (ks ! i))) [1..<length ks] @ [LeafKey (Some (ks ! 0))]"
    by (simp add: ringShape_def rev_map comp_def concat_map_singleton)
  have "map (\<lambda>i. LeafKey (Some (ks ! i))) [1..<length ks] =
        map (\<lambda>k. LeafKey (Some k)) (map (\<lambda>i. ks ! i) [1..<length ks])"
    by (simp add: comp_def)
  with a nth ks show "concat (rev (map frontKeys (ringShape b ks))) =
      map (\<lambda>k. LeafKey (Some k)) (rotate1 ks)" by simp
  have c: "concat (rev (map leaves (ringShape b ks))) =
        map (\<lambda>i. Some (ks ! i)) [1..<length ks] @ [Some (ks ! 0)]"
    by (simp add: ringShape_def rev_map comp_def concat_map_singleton)
  have "map (\<lambda>i. Some (ks ! i)) [1..<length ks] = map Some (map (\<lambda>i. ks ! i) [1..<length ks])"
    by (simp add: comp_def)
  with c nth ks show "concat (rev (map leaves (ringShape b ks))) = map Some (rotate1 ks)" by simp
  show "filter isInd (ringShape b ks) = []"
    by (simp add: ringShape_def filter_empty_conv)
  show "length (ringShape b ks) = length ks"
    using assms by (cases ks) (auto simp: ringShape_def not_le)
qed

lemma ringShape_addrs:
  "concat (map addrs (ringShape b ks)) = b # map (\<lambda>i. b + i) (rev [1..<length ks])"
  by (simp add: ringShape_def comp_def concat_map_singleton)

lemma ringShape_distinct: "distinct (concat (map addrs (ringShape b ks)))"
  by (auto simp: ringShape_addrs distinct_map inj_on_def)

lemma ringShape_above: "a \<in> set (concat (map addrs (ringShape b ks))) \<Longrightarrow> b \<le> a"
  by (auto simp: ringShape_addrs)

subsection \<open>The tree that \<open>Initialize\<close> builds\<close>

lemma length_two: "ks \<noteq> [] \<Longrightarrow> length ks \<noteq> 1 \<Longrightarrow> 2 \<le> length ks"
proof -
  assume "ks \<noteq> []"
  then have "0 < length ks" by simp
  moreover assume "length ks \<noteq> 1"
  ultimately show ?thesis by arith
qed

lemma Initialize_single:
  "Initialize [k] t =
     Inr (t\<lparr>heap := (heap t)(m_identificationNumber t \<mapsto> newPQLeaf Empty k),
            m_identificationNumber := Suc (m_identificationNumber t),
            m_root := Some (m_identificationNumber t)\<rparr>)"
  by (simp add: Initialize_def PQTree_Initialize_def allocNode_def)

lemma Initialize_many:
  "2 \<le> length ks \<Longrightarrow>
   Initialize ks t =
     Inr (addNewLeavesToTree (m_identificationNumber t) ks
            (t\<lparr>heap := (heap t)(m_identificationNumber t \<mapsto> newPQInternalNode PNode Empty),
               m_identificationNumber := Suc (m_identificationNumber t),
               m_root := Some (m_identificationNumber t)\<rparr>))"
  by (cases ks; cases "tl ks")
     (simp_all add: Initialize_def PQTree_Initialize_def allocNode_def)

lemma initShape_many: "2 \<le> length ks \<Longrightarrow> initShape b ks = TNode b (ringShape (Suc b) ks)"
  by (cases ks; cases "tl ks") (simp_all add: initShape_def)

lemma Initialize_wf:
  assumes "ks \<noteq> []"
  shows "\<exists>t'. Initialize ks t = Inr t' \<and>
          m_root t' = Some (m_identificationNumber t) \<and>
          wfT t' (initShape (m_identificationNumber t) ks) \<and>
          m_pertinentRoot t' = m_pertinentRoot t \<and>
          m_pertinentNodes t' = m_pertinentNodes t \<and>
          (\<forall>a < m_identificationNumber t. heap t' a = heap t a)"
proof (cases "length ks = 1")
  case True
  then obtain k where ks: "ks = [k]" by (cases ks) auto
  show ?thesis
    unfolding ks Initialize_single
    by (simp add: initShape_def newPQLeaf_def emptyPQNode_def)
next
  case False
  with assms have n: "2 \<le> length ks" by (simp add: length_two)
  let ?b = "m_identificationNumber t"
  let ?t0 = "t\<lparr>heap := (heap t)(?b \<mapsto> newPQInternalNode PNode Empty),
               m_identificationNumber := Suc ?b, m_root := Some ?b\<rparr>"
  have h: "heap ?t0 ?b = Some (newPQInternalNode PNode Empty)" by simp
  have wf: "wfT (addNewLeavesToTree ?b ks ?t0) (TNode ?b (ringShape (m_identificationNumber ?t0) ks))"
    by (rule addNewLeaves_wf[OF h _ _ assms])
       (simp_all add: newPQInternalNode_def emptyPQNode_def)
  have other: "\<forall>a < ?b. heap (addNewLeavesToTree ?b ks ?t0) a = heap t a"
  proof (intro allI impI)
    fix a assume "a < ?b"
    then have "heap (addNewLeavesToTree ?b ks ?t0) a = heap ?t0 a"
      by (intro addNewLeaves_other) simp_all
    with \<open>a < ?b\<close> show "heap (addNewLeavesToTree ?b ks ?t0) a = heap t a" by simp
  qed
  show ?thesis
    unfolding Initialize_many[OF n] initShape_many[OF n]
    using wf other by (simp add: addNewLeaves_members)
qed

lemma initShape_facts:
  assumes "ks \<noteq> []"
  shows "frontKeys (initShape b ks) = map (\<lambda>k. LeafKey (Some k)) (rotate1 ks)"
    and "leaves (initShape b ks) = map Some (rotate1 ks)"
    and "\<not> isInd (initShape b ks)"
    and "distinct (addrs (initShape b ks))"
proof -
  show "frontKeys (initShape b ks) = map (\<lambda>k. LeafKey (Some k)) (rotate1 ks)"
  proof (cases "length ks = 1")
    case True
    then obtain k where "ks = [k]" by (cases ks) auto
    then show ?thesis by (simp add: initShape_def)
  next
    case False
    with assms have n: "2 \<le> length ks" by (simp add: length_two)
    show ?thesis
      unfolding initShape_many[OF n]
      using ringShape_facts(1,3)[OF assms, of "Suc b"] by simp
  qed
  show "leaves (initShape b ks) = map Some (rotate1 ks)"
  proof (cases "length ks = 1")
    case True
    then obtain k where "ks = [k]" by (cases ks) auto
    then show ?thesis by (simp add: initShape_def)
  next
    case False
    with assms have n: "2 \<le> length ks" by (simp add: length_two)
    show ?thesis
      unfolding initShape_many[OF n]
      using ringShape_facts(2)[OF assms, of "Suc b"] by simp
  qed
  show "\<not> isInd (initShape b ks)"
    by (cases ks; cases "tl ks") (simp_all add: initShape_def)
  show "distinct (addrs (initShape b ks))"
  proof (cases "length ks = 1")
    case True
    then obtain k where "ks = [k]" by (cases ks) auto
    then show ?thesis by (simp add: initShape_def)
  next
    case False
    with assms have n: "2 \<le> length ks" by (simp add: length_two)
    have "b \<notin> set (concat (map addrs (ringShape (Suc b) ks)))"
      using ringShape_above[of b "Suc b" ks] by auto
    then show ?thesis
      unfolding initShape_many[OF n]
      using ringShape_distinct[of "Suc b" ks] by simp
  qed
qed

subsection \<open>Replacing a full pertinent root\<close>

lemma sameKind_refl: "sameKind nd nd"
  by (simp add: sameKind_def)


























subsection \<open>The frontier of a partial Q-node\<close>

text \<open>
  \<open>ReplacePartialRoot\<close> starts its scan at the first full child of the list that has
  no full neighbour on one side. On the Q-node \<open>exQ4\<close> the frontier is therefore read
  from left to right when the leaf 2 comes first in the list of full children, and from
  right to left when the leaf 3 does.
\<close>

declare skipIndicators.simps [code]
declare front_siblings.simps [code]
declare front_loop.simps [code]
declare scanIndicators.simps [code]
declare scanSequence.simps [code]

lemma ReplaceRoot_partial_Q_forward:
  "map_option (fst \<circ> snd) (ReplaceRoot (exQ4 [2, 3]) [20] [] [] [] 7) = Some [10, 11]"
  by code_simp

lemma ReplaceRoot_partial_Q_backward:
  "map_option (fst \<circ> snd) (ReplaceRoot (exQ4 [3, 2]) [20] [] [] [] 7) = Some [11, 10]"
  by code_simp

subsection \<open>Evaluating the example trees\<close>

lemma exQ_heap:
  "heap exQ 0 = Some (qNode Full (Some 2) (Some 4) 2 [2, 4])"
  "heap exQ 2 = Some (leafNode Full 10 (Some 0) None (Some 3))"
  "heap exQ 3 = Some (indicatorNode 7 None (Some 2) (Some 4))"
  "heap exQ 4 = Some (leafNode Full 11 (Some 0) (Some 3) None)"
  by (simp_all add: exQ_def treeOf_def)

lemma node_simps:
  "nodeType (leafNode st k par l r) = Leaf" "status (leafNode st k par l r) = st"
  "m_sibLeft (leafNode st k par l r) = l" "m_sibRight (leafNode st k par l r) = r"
  "getKey (leafNode st k par l r) = Some k" "getNodeInfo (leafNode st k par l r) = None"
  "nodeType (indicatorNode w par l r) = Leaf" "status (indicatorNode w par l r) = Indicator"
  "m_sibLeft (indicatorNode w par l r) = l" "m_sibRight (indicatorNode w par l r) = r"
  "getKey (indicatorNode w par l r) = None"
  "getNodeInfo (indicatorNode w par l r) = Some \<lparr>associatedNode = w, changeDir = False\<rparr>"
  "nodeType (qNode st le re n full) = QNode" "status (qNode st le re n full) = st"
  "m_leftEndmost (qNode st le re n full) = le" "m_rightEndmost (qNode st le re n full) = re"
  "m_referenceChild (qNode st le re n full) = None" "fullChildren (qNode st le re n full) = full"
  "nodeType (pNode st ref n full) = PNode" "status (pNode st ref n full) = st"
  "m_referenceChild (pNode st ref n full) = ref" "fullChildren (pNode st ref n full) = full"
  by (simp_all add: leafNode_def indicatorNode_def qNode_def pNode_def newPQLeaf_def
      newEmbedIndicator_def newPQInternalNode_def emptyPQNode_def newIndInfo_def)

subsection \<open>The specification against the code\<close>



lemma exQflip_heap:
  "heap exQflip 0 = Some (qNode Full (Some 2) (Some 4) 2 [2, 4])"
  "heap exQflip 2 = Some (leafNode Full 10 (Some 0) None (Some 3))"
  "heap exQflip 3 = Some (indicatorNode 7 None (Some 4) (Some 2))"
  "heap exQflip 4 = Some (leafNode Full 11 (Some 0) (Some 3) None)"
  by (simp_all add: exQflip_def treeOf_def)

lemma exP_heap:
  "heap exP 0 = Some (pNode Full (Some 2) 2 [2, 3])"
  "heap exP 2 = Some (leafNode Full 10 (Some 0) (Some 3) (Some 3))"
  "heap exP 3 = Some (leafNode Full 11 (Some 0) (Some 2) (Some 2))"
  by (simp_all add: exP_def treeOf_def)

lemma exQ_wf: "wfT exQ exQshape" "\<not> isInd exQshape" "distinct (addrs exQshape)"
  by (simp_all add: exQshape_def exQ_heap node_simps firstSonOf_def getEndmost_def
      getNextSib_def)

lemma exQflip_wf: "wfT exQflip exQshape"
  by (simp add: exQshape_def exQflip_heap node_simps firstSonOf_def getEndmost_def
      getNextSib_def)

lemma exP_wf: "wfT exP exPshape" "\<not> isInd exPshape" "distinct (addrs exPshape)"
  by (simp_all add: exPshape_def exP_heap node_simps firstSonOf_def getNextSib_def)

text \<open>
  C5. On a subtree held by the store (distinct addresses, no node shared), \<open>front\<close>
  and \<open>getFront\<close> append the same sequence of keys, leaf keys and indicator entries
  alike; \<open>getFront\<close> returns the tree it was given, on any store: it marks no node and
  sets no flag.
\<close>

theorem front_and_getFront_same_keys:
  "(wfT t sh \<longrightarrow> \<not> isInd sh \<longrightarrow> distinct (addrs sh) \<longrightarrow>
      (\<exists>t' ks. front t (Some (root sh)) keys = Some (t', ks) \<and>
               getFront t (Some (root sh)) keys = Some (t, ks) \<and>
               ks = keys @ frontKeys sh)) \<and>
   (\<forall>p t0 ks0. getFront t p keys = Some (t0, ks0) \<longrightarrow> t0 = t)"
proof (intro conjI impI allI)
  assume wf: "wfT t sh" "\<not> isInd sh" "distinct (addrs sh)"
  from front_shape[OF wf, of keys] obtain t' where
    "front t (Some (root sh)) keys = Some (t', keys @ frontKeys sh)" by blast
  with getFront_shape[OF wf(1,2), of keys]
  show "\<exists>t' ks. front t (Some (root sh)) keys = Some (t', ks) \<and>
               getFront t (Some (root sh)) keys = Some (t, ks) \<and>
               ks = keys @ frontKeys sh" by blast
next
  fix p t0 ks0
  assume "getFront t p keys = Some (t0, ks0)"
  then show "t0 = t" by (rule getFront_unchanged)
qed

theorem front_and_getFront_same_keys_witness:
  "wfT exQ exQshape \<and> \<not> isInd exQshape \<and> distinct (addrs exQshape) \<and>
   getFront exQ (Some 0) [] = Some (exQ, [NodeKey 3, LeafKey (Some 10), LeafKey (Some 11)]) \<and>
   (\<exists>t'. front exQ (Some 0) [] = Some (t', [NodeKey 3, LeafKey (Some 10), LeafKey (Some 11)]))"
proof -
  have k: "frontKeys exQshape = [NodeKey 3, LeafKey (Some 10), LeafKey (Some 11)]"
    by (simp add: exQshape_def)
  have r: "root exQshape = 0" by (simp add: exQshape_def)
  from front_and_getFront_same_keys[of exQ exQshape "[]"] exQ_wf
  obtain t' ks where "front exQ (Some (root exQshape)) [] = Some (t', ks)"
    "getFront exQ (Some (root exQshape)) [] = Some (exQ, ks)" "ks = [] @ frontKeys exQshape"
    by blast
  then show ?thesis using exQ_wf k r by auto
qed




text \<open>
  C8, as the code has it. The sibling loop of \<open>front\<close> and \<open>getFront\<close> starts at the
  right endmost child of a Q-node and at the reference child of a P-node and follows
  \<open>getNextSib\<close>; \<open>cs\<close> are the children in that order. The entries of the indicators
  among them are appended at once, in the order of the loop, that is from right to
  left for a Q-node. The other children are pushed and popped, so their keys follow in
  the opposite order: for a Q-node from the far end to the right endmost child, left to
  right; for a P-node with the keys of the reference child last.
\<close>

theorem frontier_order_of_interior_node:
  "wfT t (TNode a cs) \<longrightarrow> heap t a = Some nd \<longrightarrow>
     getFront t (Some a) keys =
       Some (t, keys @ map (\<lambda>c. NodeKey (root c)) (filter isInd cs) @
                concat (map frontKeys (rev cs))) \<and>
     (nodeType nd = QNode \<longrightarrow> m_rightEndmost nd = Some (root (hd cs))) \<and>
     (nodeType nd = PNode \<longrightarrow> m_referenceChild nd = Some (root (hd cs))) \<and>
     (distinct (addrs (TNode a cs)) \<longrightarrow>
        (\<exists>t'. front t (Some a) keys =
           Some (t', keys @ map (\<lambda>c. NodeKey (root c)) (filter isInd cs) @
                     concat (map frontKeys (rev cs)))))"
proof (intro impI)
  assume wf: "wfT t (TNode a cs)" and nd: "heap t a = Some nd"
  have k: "frontKeys (TNode a cs) =
      map (\<lambda>c. NodeKey (root c)) (filter isInd cs) @ concat (map frontKeys (rev cs))"
    by (simp add: rev_map)
  have g: "getFront t (Some a) keys = Some (t, keys @ frontKeys (TNode a cs))"
    using getFront_shape[OF wf, of keys] by simp
  from wf nd obtain c cs' where cs: "cs = c # cs'" and fs: "firstSonOf nd = Some (root c)"
    and ty: "nodeType nd \<noteq> Leaf"
    by (auto split: list.splits)
  have q: "nodeType nd = QNode \<longrightarrow> m_rightEndmost nd = Some (root (hd cs))"
    using fs cs by (auto simp: firstSonOf_def getEndmost_def)
  have p: "nodeType nd = PNode \<longrightarrow> m_referenceChild nd = Some (root (hd cs))"
    using fs cs by (auto simp: firstSonOf_def)
  have f: "distinct (addrs (TNode a cs)) \<longrightarrow>
        (\<exists>t'. front t (Some a) keys = Some (t', keys @ frontKeys (TNode a cs)))"
  proof
    assume "distinct (addrs (TNode a cs))"
    from front_shape[OF wf _ this, of keys] show
      "\<exists>t'. front t (Some a) keys = Some (t', keys @ frontKeys (TNode a cs))" by auto
  qed
  from g q p f show "getFront t (Some a) keys =
       Some (t, keys @ map (\<lambda>c. NodeKey (root c)) (filter isInd cs) @
                concat (map frontKeys (rev cs))) \<and>
     (nodeType nd = QNode \<longrightarrow> m_rightEndmost nd = Some (root (hd cs))) \<and>
     (nodeType nd = PNode \<longrightarrow> m_referenceChild nd = Some (root (hd cs))) \<and>
     (distinct (addrs (TNode a cs)) \<longrightarrow>
        (\<exists>t'. front t (Some a) keys =
           Some (t', keys @ map (\<lambda>c. NodeKey (root c)) (filter isInd cs) @
                     concat (map frontKeys (rev cs)))))"
    unfolding k by blast
qed

theorem frontier_order_of_interior_node_witness:
  "wfT exP (TNode 0 [TLeaf 2 (Some 10), TLeaf 3 (Some 11)]) \<and>
   heap exP 0 = Some (pNode Full (Some 2) 2 [2, 3]) \<and>
   distinct (addrs (TNode 0 [TLeaf 2 (Some 10), TLeaf 3 (Some 11)])) \<and>
   getFront exP (Some 0) [] = Some (exP, [LeafKey (Some 11), LeafKey (Some 10)]) \<and>
   m_referenceChild (pNode Full (Some 2) 2 [2, 3]) = Some 2 \<and>
   (\<exists>t'. front exP (Some 0) [] = Some (t', [LeafKey (Some 11), LeafKey (Some 10)]))"
proof -
  have wf: "wfT exP (TNode 0 [TLeaf 2 (Some 10), TLeaf 3 (Some 11)])"
    using exP_wf(1) by (simp add: exPshape_def)
  have d: "distinct (addrs (TNode 0 [TLeaf 2 (Some 10), TLeaf 3 (Some 11)]))" by simp
  from frontier_order_of_interior_node
    [of exP 0 "[TLeaf 2 (Some 10), TLeaf 3 (Some 11)]" "pNode Full (Some 2) 2 [2, 3]" "[]"]
    wf d exP_heap(1)
  show ?thesis by (simp add: node_simps)
qed

text \<open>
  C8 as stated fails. The children of the Q-node of \<open>exQ\<close> are, from left to right, the
  leaf with the edge 10, the indicator 3 and the leaf with the edge 11; the scan emits
  the indicator first.
\<close>

theorem getFront_emits_indicator_first_counterexample:
  "getFront exQ (Some 0) [] = Some (exQ, [NodeKey 3, LeafKey (Some 10), LeafKey (Some 11)]) \<and>
   [NodeKey 3, LeafKey (Some 10), LeafKey (Some 11)] \<noteq>
   [LeafKey (Some 10), NodeKey 3, LeafKey (Some 11)] \<and>
   m_leftEndmost (qNode Full (Some 2) (Some 4) 2 [2, 4]) = Some 2 \<and>
   heap exQ 2 = Some (leafNode Full 10 (Some 0) None (Some 3)) \<and>
   heap exQ 3 = Some (indicatorNode 7 None (Some 2) (Some 4)) \<and>
   heap exQ 4 = Some (leafNode Full 11 (Some 0) (Some 3) None)"
proof -
  have "frontKeys exQshape = [NodeKey 3, LeafKey (Some 10), LeafKey (Some 11)]"
    and "root exQshape = 0"
    by (simp_all add: exQshape_def)
  with getFront_shape[OF exQ_wf(1,2), of "[]"]
  show ?thesis by (simp add: exQ_heap node_simps)
qed



lemma infoAt_pertinentRoot [simp]: "infoAt (t\<lparr>m_pertinentRoot := x\<rparr>) = infoAt t"
  by (simp add: fun_eq_iff infoAt_def)

lemma changeDirAt_pertinentRoot [simp]: "changeDirAt (t\<lparr>m_pertinentRoot := x\<rparr>) = changeDirAt t"
  by (simp add: fun_eq_iff changeDirAt_def)

lemma vertexAt_pertinentRoot [simp]: "vertexAt (t\<lparr>m_pertinentRoot := x\<rparr>) = vertexAt t"
  by (simp add: fun_eq_iff vertexAt_def)

text \<open>
  C10. When \<open>ReplaceRoot\<close> is called with no leaf key while the pertinent root is the
  root of the tree, and the tree is held by the store with a key in every leaf, it
  replaces nothing: the tree it leaves is the tree after the scan by \<open>front\<close> of the
  whole tree, with the pertinent root set to \<open>nullptr\<close>; the edges of all leaves are
  appended to \<open>frontier\<close> in the order of the frontier, and the vertex of every indicator
  of the tree is appended to \<open>opposed\<close> when its flag is set after the scan and to
  \<open>nonOpposed\<close> when it is not.
\<close>

theorem ReplaceRoot_without_keys_only_scans:
  assumes "m_pertinentRoot t = m_root t" "m_root t = Some (root sh)"
    and "wfT t sh" "\<not> isInd sh" "distinct (addrs sh)"
    and "\<forall>k \<in> set (leaves sh). k \<noteq> None"
  shows "\<exists>t1 fr'. front t (m_root t) [] = Some (t1, frontKeys sh) \<and>
           scanned t t1 (visits sh) \<and>
           map Some fr' = map Some frontier @ leaves sh \<and>
           ReplaceRoot t [] frontier opposed nonOpposed v =
             Some (t1\<lparr>m_pertinentRoot := None\<rparr>, fr',
                   opposed @ map (vertexAt t1) (filter (changeDirAt t1) (map snd (visits sh))),
                   nonOpposed @
                     map (vertexAt t1) (filter (\<lambda>i. \<not> changeDirAt t1 i) (map snd (visits sh))))"
proof -
  from front_shape[OF assms(3,4,5), of "[]"] obtain t1 where
    f: "front t (Some (root sh)) [] = Some (t1, frontKeys sh)"
    and s: "scanned t t1 (visits sh)" by auto
  let ?t2 = "t1\<lparr>m_pertinentRoot := None\<rparr>"
  have lk: "\<forall>k \<in> set (leafKeysOf (frontKeys sh)). k \<noteq> None"
    using assms(6) by (simp add: leafKeysOf_frontKeys)
  have nk: "\<forall>i \<in> set (nodeKeys (frontKeys sh)). infoAt ?t2 i \<noteq> None"
  proof
    fix i assume "i \<in> set (nodeKeys (frontKeys sh))"
    then obtain old where "(old, i) \<in> set (visits sh)"
      by (auto simp: nodeKeys_frontKeys)
    from wfT_info[OF assms(3) this] scanned_infoAt[OF s, of i]
    show "infoAt ?t2 i \<noteq> None" by simp
  qed
  from scanNodeFrontier_total[OF lk nk, of "(frontier, opposed, nonOpposed)"]
  obtain fr' op' nop' where
    sc: "scanNodeFrontier ?t2 (frontKeys sh) (frontier, opposed, nonOpposed) = Some (fr', op', nop')"
    using prod_cases3 by metis
  from scanNodeFrontier_result[OF sc]
  have r: "map Some fr' = map Some frontier @ leaves sh"
    "op' = opposed @ map (vertexAt t1) (filter (changeDirAt t1) (map snd (visits sh)))"
    "nop' = nonOpposed @ map (vertexAt t1) (filter (\<lambda>i. \<not> changeDirAt t1 i) (map snd (visits sh)))"
    by (simp_all add: leafKeysOf_frontKeys nodeKeys_frontKeys)
  have "ReplaceRoot t [] frontier opposed nonOpposed v = Some (?t2, fr', op', nop')"
    using assms(1,2) f sc by (simp add: ReplaceRoot_def)
  with f s r assms(2) show ?thesis by auto
qed

theorem ReplaceRoot_without_keys_only_scans_witness:
  "m_pertinentRoot exQflip = m_root exQflip \<and> m_root exQflip = Some (root exQshape) \<and>
   wfT exQflip exQshape \<and> \<not> isInd exQshape \<and> distinct (addrs exQshape) \<and>
   leaves exQshape = [Some 10, Some 11] \<and>
   (\<exists>t'. ReplaceRoot exQflip [] [] [] [] 5 = Some (t', [10, 11], [7], []) \<and>
         m_pertinentRoot t' = None \<and> m_root t' = Some 0 \<and>
         heap t' 0 = Some (qNode Full (Some 2) (Some 4) 2 [2, 4]))"
proof -
  have pre: "m_pertinentRoot exQflip = m_root exQflip" "m_root exQflip = Some (root exQshape)"
    "\<forall>k \<in> set (leaves exQshape). k \<noteq> None"
    by (simp_all add: exQflip_def treeOf_def exQshape_def)
  have v: "visits exQshape = [(Some 4, 3)]" and l: "leaves exQshape = [Some 10, Some 11]"
    by (simp_all add: exQshape_def)
  from ReplaceRoot_without_keys_only_scans[OF pre(1,2) exQflip_wf exQ_wf(2,3) pre(3), of "[]" "[]" "[]" 5]
  obtain t1 fr' where s: "scanned exQflip t1 (visits exQshape)"
    and fr: "map Some fr' = map Some [] @ leaves exQshape"
    and rr: "ReplaceRoot exQflip [] [] [] [] 5 =
             Some (t1\<lparr>m_pertinentRoot := None\<rparr>, fr',
                   [] @ map (vertexAt t1) (filter (changeDirAt t1) (map snd (visits exQshape))),
                   [] @ map (vertexAt t1) (filter (\<lambda>i. \<not> changeDirAt t1 i) (map snd (visits exQshape))))"
    by blast
  have h3: "heap t1 3 = Some (visitNode (Some 4) (indicatorNode 7 None (Some 4) (Some 2)))"
    using s v by (simp add: scanned_def exQflip_heap)
  have c: "changeDirAt t1 3" and vx: "vertexAt t1 3 = 7"
    using h3 by (simp_all add: changeDirAt_def vertexAt_def infoAt_def visitNode_def node_simps)
  have h0: "heap t1 0 = Some (qNode Full (Some 2) (Some 4) 2 [2, 4])"
    using s v by (simp add: scanned_def exQflip_heap)
  have mr: "m_root t1 = Some 0" using s by (simp add: scanned_def exQflip_def treeOf_def)
  have "map Some fr' = map Some [10, 11]" using fr l by simp
  then have "fr' = [10, 11]" by (simp only: inj_map_eq_map[OF inj_Some])
  with rr c vx v have "ReplaceRoot exQflip [] [] [] [] 5 =
      Some (t1\<lparr>m_pertinentRoot := None\<rparr>, [10, 11], [7], [])" by simp
  with h0 mr pre(1,2) l exQflip_wf exQ_wf(2,3) show ?thesis by auto
qed

text \<open>
  C7. \<open>Initialize\<close> fails with \<open>InvalidInput\<close> on the empty list of keys. On a list
  of keys that is not empty it succeeds: the root of the tree is the new node at the
  next identification number; for one key that node is a leaf with the key, for two
  keys or more it is a P-node whose child count is the number of keys and whose children
  are one new leaf per key, each with the P-node as its parent (the shape
  \<open>initShape\<close>, held by the store). Nothing else is touched: the pertinent root, the
  list of pertinent nodes and every node that was in the store are as before.
\<close>

theorem Initialize_builds_the_tree:
  "(leafKeys = [] \<longrightarrow> Initialize leafKeys t = Inl InvalidInput) \<and>
   (leafKeys \<noteq> [] \<longrightarrow>
      (\<exists>t' nd. Initialize leafKeys t = Inr t' \<and>
         m_root t' = Some (m_identificationNumber t) \<and>
         heap t' (m_identificationNumber t) = Some nd \<and>
         wfT t' (initShape (m_identificationNumber t) leafKeys) \<and>
         (length leafKeys = 1 \<longrightarrow>
            initShape (m_identificationNumber t) leafKeys =
              TLeaf (m_identificationNumber t) (Some (hd leafKeys)) \<and>
            nodeType nd = Leaf \<and> getKey nd = Some (hd leafKeys)) \<and>
         (2 \<le> length leafKeys \<longrightarrow>
            initShape (m_identificationNumber t) leafKeys =
              TNode (m_identificationNumber t) (ringShape (Suc (m_identificationNumber t)) leafKeys) \<and>
            nodeType nd = PNode \<and> m_childCount nd = int (length leafKeys) \<and>
            length (ringShape (Suc (m_identificationNumber t)) leafKeys) = length leafKeys \<and>
            (\<forall>i < length leafKeys.
               heap t' (Suc (m_identificationNumber t) + i) =
                 Some (newLeafAt PNode (m_identificationNumber t)
                         (Suc (m_identificationNumber t)) leafKeys i))) \<and>
         m_pertinentRoot t' = m_pertinentRoot t \<and>
         m_pertinentNodes t' = m_pertinentNodes t \<and>
         (\<forall>a < m_identificationNumber t. heap t' a = heap t a)))"
proof (intro conjI impI)
  assume "leafKeys = []"
  then show "Initialize leafKeys t = Inl InvalidInput"
    by (simp add: Initialize_def PQTree_Initialize_def)
next
  assume ne: "leafKeys \<noteq> []"
  let ?b = "m_identificationNumber t"
  from Initialize_wf[OF ne, of t] obtain t' where
    i: "Initialize leafKeys t = Inr t'" and r: "m_root t' = Some ?b"
    and wf: "wfT t' (initShape ?b leafKeys)"
    and frame: "m_pertinentRoot t' = m_pertinentRoot t" "m_pertinentNodes t' = m_pertinentNodes t"
      "\<forall>a < ?b. heap t' a = heap t a" by blast
  have one: "initShape ?b leafKeys = TLeaf ?b (Some (hd leafKeys)) \<and>
      (\<exists>nd. heap t' ?b = Some nd \<and> nodeType nd = Leaf \<and> getKey nd = Some (hd leafKeys))"
    if "length leafKeys = 1"
  proof -
    from that obtain k where ks: "leafKeys = [k]" by (cases leafKeys) auto
    then have "initShape ?b leafKeys = TLeaf ?b (Some (hd leafKeys))" by (simp add: initShape_def)
    with wf show ?thesis by (auto split: option.splits)
  qed
  have many: "initShape ?b leafKeys = TNode ?b (ringShape (Suc ?b) leafKeys) \<and>
      (\<exists>nd. heap t' ?b = Some nd \<and> nodeType nd = PNode \<and> m_childCount nd = int (length leafKeys)) \<and>
      length (ringShape (Suc ?b) leafKeys) = length leafKeys \<and>
      (\<forall>i < length leafKeys.
         heap t' (Suc ?b + i) = Some (newLeafAt PNode ?b (Suc ?b) leafKeys i))"
    if n: "2 \<le> length leafKeys"
  proof -
    let ?t0 = "t\<lparr>heap := (heap t)(?b \<mapsto> newPQInternalNode PNode Empty),
               m_identificationNumber := Suc ?b, m_root := Some ?b\<rparr>"
    have t': "t' = addNewLeavesToTree ?b leafKeys ?t0"
      using i Initialize_many[OF n, of t] by simp
    have h: "heap ?t0 ?b = Some (newPQInternalNode PNode Empty)" by simp
    have ty: "nodeType (newPQInternalNode PNode Empty) = PNode"
      by (simp add: newPQInternalNode_def emptyPQNode_def)
    have fa: "heap t' ?b = Some ((newPQInternalNode PNode Empty)
        \<lparr>m_childCount := m_childCount (newPQInternalNode PNode Empty) + int (length leafKeys),
          m_referenceChild := Some (m_identificationNumber ?t0)\<rparr>)"
      unfolding t' by (rule addNewLeaves_father[OF h ne _ ty]) simp
    have lf: "heap t' (Suc ?b + i) = Some (newLeafAt PNode ?b (Suc ?b) leafKeys i)"
      if "i < length leafKeys" for i
      using addNewLeaves_leaf[OF h that, of ] ty unfolding t' by simp
    show ?thesis
      using fa lf initShape_many[OF n] ringShape_facts(4)[OF ne]
      by (simp add: newPQInternalNode_def emptyPQNode_def)
  qed
  from wf obtain nd where nd: "heap t' ?b = Some nd"
    by (cases leafKeys; cases "tl leafKeys") (auto simp: initShape_def split: option.splits)
  show "\<exists>t' nd. Initialize leafKeys t = Inr t' \<and>
         m_root t' = Some ?b \<and> heap t' ?b = Some nd \<and>
         wfT t' (initShape ?b leafKeys) \<and>
         (length leafKeys = 1 \<longrightarrow>
            initShape ?b leafKeys = TLeaf ?b (Some (hd leafKeys)) \<and>
            nodeType nd = Leaf \<and> getKey nd = Some (hd leafKeys)) \<and>
         (2 \<le> length leafKeys \<longrightarrow>
            initShape ?b leafKeys = TNode ?b (ringShape (Suc ?b) leafKeys) \<and>
            nodeType nd = PNode \<and> m_childCount nd = int (length leafKeys) \<and>
            length (ringShape (Suc ?b) leafKeys) = length leafKeys \<and>
            (\<forall>i < length leafKeys.
               heap t' (Suc ?b + i) = Some (newLeafAt PNode ?b (Suc ?b) leafKeys i))) \<and>
         m_pertinentRoot t' = m_pertinentRoot t \<and>
         m_pertinentNodes t' = m_pertinentNodes t \<and>
         (\<forall>a < ?b. heap t' a = heap t a)"
    using i r wf frame nd one many by auto
qed

theorem Initialize_builds_the_tree_witness:
  "Initialize [] emptyPQTree = Inl InvalidInput \<and>
   (\<exists>t'. Initialize [10] emptyPQTree = Inr t' \<and> m_root t' = Some 0 \<and>
         wfT t' (TLeaf 0 (Some 10))) \<and>
   (\<exists>t'. Initialize [10, 11, 12] emptyPQTree = Inr t' \<and> m_root t' = Some 0 \<and>
         wfT t' (TNode 0 [TLeaf 1 (Some 10), TLeaf 3 (Some 12), TLeaf 2 (Some 11)]) \<and>
         m_pertinentRoot t' = None)"
proof -
  have id0: "m_identificationNumber emptyPQTree = 0"
    and pr: "m_pertinentRoot emptyPQTree = None"
    by (simp_all add: emptyPQTree_def)
  have a: "Initialize [] emptyPQTree = Inl InvalidInput"
    using Initialize_builds_the_tree[of "[]" emptyPQTree] by simp
  have s1: "initShape 0 [10] = TLeaf 0 (Some 10)" by (simp add: initShape_def)
  have s3: "initShape 0 [10, 11, 12] = TNode 0 [TLeaf 1 (Some 10), TLeaf 3 (Some 12), TLeaf 2 (Some 11)]"
    by (simp add: initShape_def ringShape_def upt_rec)
  from Initialize_builds_the_tree[of "[10]" emptyPQTree]
  have b: "\<exists>t'. Initialize [10] emptyPQTree = Inr t' \<and> m_root t' = Some 0 \<and>
         wfT t' (TLeaf 0 (Some 10))"
    using id0 s1 by auto
  from Initialize_builds_the_tree[of "[10, 11, 12]" emptyPQTree]
  have c: "\<exists>t'. Initialize [10, 11, 12] emptyPQTree = Inr t' \<and> m_root t' = Some 0 \<and>
         wfT t' (TNode 0 [TLeaf 1 (Some 10), TLeaf 3 (Some 12), TLeaf 2 (Some 11)]) \<and>
         m_pertinentRoot t' = None"
    using id0 pr s3 by auto
  from a b c show ?thesis by blast
qed

text \<open>
  C6. After \<open>Initialize\<close> on a list of \<open>N\<close> distinct keys the tree has exactly \<open>N\<close>
  leaves, one per key, and a scan of the whole tree by \<open>getFront\<close> or by \<open>front\<close>
  returns exactly the entries of the keys \<open>ks\<close>, a rearrangement of the list in which
  every key occurs once; there is no indicator among them. \<open>getFront\<close> leaves the tree
  as it is.
\<close>

theorem scan_after_Initialize_returns_every_key_once:
  assumes "distinct leafKeys" "leafKeys \<noteq> []"
  shows "\<exists>t' t'' ks. Initialize leafKeys t = Inr t' \<and>
           wfT t' (initShape (m_identificationNumber t) leafKeys) \<and>
           leaves (initShape (m_identificationNumber t) leafKeys) = map Some ks \<and>
           getFront t' (m_root t') [] = Some (t', map (\<lambda>k. LeafKey (Some k)) ks) \<and>
           front t' (m_root t') [] = Some (t'', map (\<lambda>k. LeafKey (Some k)) ks) \<and>
           length ks = length leafKeys \<and> distinct ks \<and> set ks = set leafKeys"
proof -
  let ?b = "m_identificationNumber t"
  let ?sh = "initShape ?b leafKeys"
  from Initialize_wf[OF assms(2), of t] obtain t' where
    i: "Initialize leafKeys t = Inr t'" and r: "m_root t' = Some ?b"
    and wf: "wfT t' ?sh" by blast
  note sh = initShape_facts[OF assms(2), of ?b]
  have root: "root ?sh = ?b"
    by (cases leafKeys; cases "tl leafKeys") (simp_all add: initShape_def)
  from getFront_shape[OF wf sh(3), of "[]"]
  have g: "getFront t' (m_root t') [] = Some (t', map (\<lambda>k. LeafKey (Some k)) (rotate1 leafKeys))"
    using r root sh(1) by simp
  from front_shape[OF wf sh(3,4), of "[]"] obtain t'' where
    f: "front t' (m_root t') [] = Some (t'', map (\<lambda>k. LeafKey (Some k)) (rotate1 leafKeys))"
    using r root sh(1) by auto
  show ?thesis
    using i wf sh(2) g f assms(1) by (intro exI[of _ t'] exI[of _ t''] exI[of _ "rotate1 leafKeys"]) simp
qed

theorem scan_after_Initialize_returns_every_key_once_witness:
  "distinct [10, 11, 12 :: nat] \<and> [10, 11, 12 :: nat] \<noteq> [] \<and>
   (\<exists>t' ks. Initialize [10, 11, 12] emptyPQTree = Inr t' \<and>
        getFront t' (m_root t') [] = Some (t', map (\<lambda>k. LeafKey (Some k)) ks) \<and>
        length ks = 3 \<and> set ks = {10, 11, 12})"
proof -
  have d: "distinct [10, 11, 12 :: nat]" "[10, 11, 12 :: nat] \<noteq> []" by simp_all
  from scan_after_Initialize_returns_every_key_once[OF d, of emptyPQTree]
  obtain t' ks where "Initialize [10, 11, 12] emptyPQTree = Inr t'"
    "getFront t' (m_root t') [] = Some (t', map (\<lambda>k. LeafKey (Some k)) ks)"
    "length ks = length [10, 11, 12 :: nat]" "set ks = set [10, 11, 12 :: nat]" by blast
  then have "\<exists>t' ks. Initialize [10, 11, 12] emptyPQTree = Inr t' \<and>
        getFront t' (m_root t') [] = Some (t', map (\<lambda>k. LeafKey (Some k)) ks) \<and>
        length ks = 3 \<and> set ks = {10, 11, 12}" by auto
  with d show ?thesis by blast
qed






end
